theory Spec2Isabelle
  imports Main "HOL-Library.AList" "HOL-Library.Sublist"
begin

section \<open>JavaScript values\<close>

text \<open>
  The registry is untyped at run time: event identifiers, callbacks, contexts and the
  \<open>once\<close> filter of \<open>removeListener\<close> are arbitrary JavaScript values. Objects and
  functions are references, compared by identity (\<open>!==\<close>); \<open>JEmitter\<close> is the reference
  to the registry instance itself. Numbers are restricted to integers, so that strict
  equality and the key equality of \<open>Map\<close> are both HOL equality.
\<close>

datatype jsval =
    Undefined
  | Null
  | JBool bool
  | JNum int
  | JStr string
  | JSym nat
  | JObj nat
  | JFun nat
  | JEmitter

text \<open>Truthiness, as tested by \<open>!x\<close>, \<open>x || y\<close>, \<open>x && y\<close> and \<open>if (x)\<close>.\<close>

fun truthy :: "jsval \<Rightarrow> bool" where
  "truthy Undefined = False"
| "truthy Null = False"
| "truthy (JBool b) = b"
| "truthy (JNum n) = (n \<noteq> 0)"
| "truthy (JStr s) = (s \<noteq> [])"
| "truthy (JSym n) = True"
| "truthy (JObj n) = True"
| "truthy (JFun n) = True"
| "truthy JEmitter = True"

text \<open>\<open>typeof fn === 'function'\<close>.\<close>

fun is_function :: "jsval \<Rightarrow> bool" where
  "is_function (JFun n) = True"
| "is_function v = False"

datatype error =
    TypeError string
  | Thrown jsval

text \<open>\<open>new TypeError('The listener must be a function')\<close>, the error of \<open>addListener\<close>.\<close>

definition InvalidListener :: error where
  "InvalidListener = TypeError ''The listener must be a function''"

section \<open>Listeners, the event table and the store\<close>

text \<open>Class \<open>EE\<close>: a single event listener.\<close>

record EE =
  ee_fn :: jsval
  ee_context :: jsval
  ee_once :: bool

text \<open>What a run lets an observer see: a callback invoked with its receiver and
  arguments, and a value of \<open>listenerCount\<close> read from inside a callback.\<close>

datatype obs =
    Invoked jsval jsval "jsval list"
  | Counted jsval nat

text \<open>
  The listener arrays are JavaScript objects: \<open>push\<close> mutates an array in place, and
  \<open>emit\<close> holds a reference to the array it iterates while listeners run. The store
  \<open>heap\<close> maps an array reference (an index) to the array's elements; \<open>events\<close> is
  the \<open>Map\<close> \<open>_events\<close> from event identifier to array reference, in insertion order.
\<close>

record state =
  heap :: "EE list list"
  events :: "(jsval \<times> nat) list"
  trace :: "obs list"

definition new_emitter :: state where
  "new_emitter = \<lparr>heap = [], events = [], trace = []\<rparr>"

text \<open>The elements of the array behind a reference.\<close>

definition deref :: "state \<Rightarrow> nat \<Rightarrow> EE list" where
  "deref s a = (if a < length (heap s) then heap s ! a else [])"

text \<open>\<open>new EE(fn, context, once)\<close>.\<close>

definition mkEE :: "jsval \<Rightarrow> jsval \<Rightarrow> bool \<Rightarrow> EE" where
  "mkEE f c b = \<lparr>ee_fn = f, ee_context = c, ee_once = (b \<or> False)\<rparr>"

section \<open>Registration and removal\<close>

definition clearEvent :: "jsval \<Rightarrow> state \<Rightarrow> state" where
  "clearEvent evt s = s\<lparr>events := AList.delete evt (events s)\<rparr>"

definition addListener ::
  "jsval \<Rightarrow> jsval \<Rightarrow> jsval \<Rightarrow> bool \<Rightarrow> state \<Rightarrow> (error + unit) \<times> state" where
  "addListener event f ctx b s =
     (if \<not> is_function f then (Inl InvalidListener, s)
      else
        let listener = mkEE f (if truthy ctx then ctx else JEmitter) b in
        (case map_of (events s) event of
           None \<Rightarrow>
             (Inr (), s\<lparr>heap := heap s @ [[listener]],
                        events := AList.update event (length (heap s)) (events s)\<rparr>)
         | Some a \<Rightarrow>
             (Inr (), s\<lparr>heap := (heap s)[a := deref s a @ [listener]]\<rparr>)))"

definition on :: "jsval \<Rightarrow> jsval \<Rightarrow> jsval \<Rightarrow> state \<Rightarrow> (error + unit) \<times> state" where
  "on event f ctx s = addListener event f ctx False s"

definition once :: "jsval \<Rightarrow> jsval \<Rightarrow> jsval \<Rightarrow> state \<Rightarrow> (error + unit) \<times> state" where
  "once event f ctx s = addListener event f ctx True s"

text \<open>The method \<open>addListener\<close> of the class (the function above is the module's helper).\<close>

definition addListener_method ::
  "jsval \<Rightarrow> jsval \<Rightarrow> jsval \<Rightarrow> state \<Rightarrow> (error + unit) \<times> state" where
  "addListener_method event f ctx s = on event f ctx s"

text \<open>The test of the loop of \<open>removeListener\<close>: the listeners that are kept.\<close>

definition kept :: "jsval \<Rightarrow> jsval \<Rightarrow> jsval \<Rightarrow> EE \<Rightarrow> bool" where
  "kept f ctx b l \<longleftrightarrow>
     ee_fn l \<noteq> f \<or> (truthy b \<and> \<not> ee_once l) \<or> (truthy ctx \<and> ee_context l \<noteq> ctx)"

definition removeListener :: "jsval \<Rightarrow> jsval \<Rightarrow> jsval \<Rightarrow> jsval \<Rightarrow> state \<Rightarrow> state" where
  "removeListener event f ctx b s =
     (case map_of (events s) event of
        None \<Rightarrow> s
      | Some a \<Rightarrow>
          if \<not> truthy f then clearEvent event s
          else
            let evs = filter (kept f ctx b) (deref s a) in
            if length evs \<noteq> 0
            then s\<lparr>heap := heap s @ [evs],
                   events := AList.update event (length (heap s)) (events s)\<rparr>
            else clearEvent event s)"

definition removeAllListeners :: "jsval \<Rightarrow> state \<Rightarrow> state" where
  "removeAllListeners event s =
     (if truthy event
      then (if map_of (events s) event \<noteq> None then clearEvent event s else s)
      else s\<lparr>events := []\<rparr>)"

definition off :: "jsval \<Rightarrow> jsval \<Rightarrow> jsval \<Rightarrow> jsval \<Rightarrow> state \<Rightarrow> state" where
  "off event f ctx b s = removeListener event f ctx b s"

section \<open>Queries\<close>

definition eventNames :: "state \<Rightarrow> jsval list" where
  "eventNames s = map fst (events s)"

definition listeners :: "jsval \<Rightarrow> state \<Rightarrow> jsval list" where
  "listeners event s =
     (case map_of (events s) event of
        None \<Rightarrow> []
      | Some a \<Rightarrow> map ee_fn (deref s a))"

definition listenerCount :: "jsval \<Rightarrow> state \<Rightarrow> nat" where
  "listenerCount event s =
     (case map_of (events s) event of
        None \<Rightarrow> 0
      | Some a \<Rightarrow> length (deref s a))"

section \<open>Listener bodies\<close>

text \<open>
  A callback is a function reference \<open>JFun n\<close>; what it does to the registry when it
  runs is a script of registry calls, given by a program that maps each function to its
  body. A body may register and remove listeners, emit again, read \<open>listenerCount\<close>
  and throw.
\<close>

datatype action =
    AOn jsval jsval jsval
  | AOnce jsval jsval jsval
  | AOff jsval jsval jsval jsval
  | ARemoveAll jsval
  | AEmit jsval "jsval list"
  | ACount jsval
  | AThrow jsval

type_synonym program = "nat \<Rightarrow> action list"

type_synonym 'a outcome = "((error + 'a) \<times> state) option"

fun exec ::
  "(jsval \<Rightarrow> jsval list \<Rightarrow> state \<Rightarrow> bool outcome) \<Rightarrow> action list \<Rightarrow> state \<Rightarrow> unit outcome"
where
  "exec em [] s = Some (Inr (), s)"
| "exec em (AOn e f c # as) s =
     (case on e f c s of
        (Inl err, s') \<Rightarrow> Some (Inl err, s')
      | (Inr u, s') \<Rightarrow> exec em as s')"
| "exec em (AOnce e f c # as) s =
     (case once e f c s of
        (Inl err, s') \<Rightarrow> Some (Inl err, s')
      | (Inr u, s') \<Rightarrow> exec em as s')"
| "exec em (AOff e f c b # as) s = exec em as (off e f c b s)"
| "exec em (ARemoveAll e # as) s = exec em as (removeAllListeners e s)"
| "exec em (AEmit e args # as) s =
     (case em e args s of
        None \<Rightarrow> None
      | Some (Inl err, s') \<Rightarrow> Some (Inl err, s')
      | Some (Inr b, s') \<Rightarrow> exec em as s')"
| "exec em (ACount e # as) s =
     exec em as (s\<lparr>trace := trace s @ [Counted e (listenerCount e s)]\<rparr>)"
| "exec em (AThrow v # as) s = Some (Inl (Thrown v), s)"

text \<open>\<open>l.fn.call(l.context, ...args)\<close>: the call is observed, then the body runs.\<close>

definition call_listener ::
  "(jsval \<Rightarrow> jsval list \<Rightarrow> state \<Rightarrow> bool outcome) \<Rightarrow> program \<Rightarrow> EE \<Rightarrow> jsval list \<Rightarrow> state
     \<Rightarrow> unit outcome" where
  "call_listener em P l args s =
     (case ee_fn l of
        JFun n \<Rightarrow>
          exec em (P n) (s\<lparr>trace := trace s @ [Invoked (ee_fn l) (ee_context l) args]\<rparr>)
      | _ \<Rightarrow> Some (Inl (TypeError ''fn.call is not a function''), s))"

section \<open>Dispatch\<close>

text \<open>
  The loop of \<open>emit\<close> over the array reference \<open>a\<close> and the length \<open>n\<close> that were
  read before the loop. \<open>listeners[i]\<close> is read from the store as it is at that
  moment; reading past the end of the array gives \<open>undefined\<close>, whose property access
  is a \<open>TypeError\<close>.
\<close>

function emit_loop ::
  "(EE \<Rightarrow> jsval list \<Rightarrow> state \<Rightarrow> unit outcome) \<Rightarrow> jsval \<Rightarrow> jsval list \<Rightarrow> nat \<Rightarrow> nat \<Rightarrow> nat
     \<Rightarrow> state \<Rightarrow> bool outcome"
where
  "emit_loop call event args a i n s =
     (if i < n then
        (if i < length (deref s a) then
           let s1 = (if ee_once (deref s a ! i)
                     then removeListener event (ee_fn (deref s a ! i)) Undefined (JBool True) s
                     else s)
           in
           (if i < length (deref s1 a) then
              (case call (deref s1 a ! i) args s1 of
                 None \<Rightarrow> None
               | Some (Inl err, s2) \<Rightarrow> Some (Inl err, s2)
               | Some (Inr u, s2) \<Rightarrow> emit_loop call event args a (Suc i) n s2)
            else Some (Inl (TypeError ''Cannot read properties of undefined''), s1))
         else Some (Inl (TypeError ''Cannot read properties of undefined''), s))
      else Some (Inr True, s))"
  by pat_completeness auto
termination
  by (relation "measure (\<lambda>(call, event, args, a, i, n, s). n - i)") auto

declare emit_loop.simps [simp del]

text \<open>
  \<open>emit\<close>. A listener may emit again, to any depth, so the nesting is bounded by a
  fuel: \<open>None\<close> is a run that needs more nested calls than the fuel allows.
\<close>

primrec emit :: "program \<Rightarrow> nat \<Rightarrow> jsval \<Rightarrow> jsval list \<Rightarrow> state \<Rightarrow> bool outcome" where
  "emit P 0 event args s = None"
| "emit P (Suc k) event args s =
     (case map_of (events s) event of
        None \<Rightarrow> Some (Inr False, s)
      | Some a \<Rightarrow>
          if length (deref s a) = 0 then Some (Inr False, s)
          else emit_loop (call_listener (emit P k) P) event args a 0 (length (deref s a)) s)"

section \<open>The table invariant and the view of the table\<close>

text \<open>
  The invariant of the event table: keys are unique, every key refers to an array of its
  own that is allocated and not empty, and every listener ever stored holds a function.
\<close>

definition invar :: "state \<Rightarrow> bool" where
  "invar s \<longleftrightarrow>
     distinct (map fst (events s)) \<and> distinct (map snd (events s)) \<and>
     list_all (\<lambda>(e, a). a < length (heap s) \<and> heap s ! a \<noteq> []) (events s) \<and>
     list_all (list_all (\<lambda>l. is_function (ee_fn l))) (heap s)"

text \<open>The listener sequence of an event: the elements of its array, or none.\<close>

definition entry :: "state \<Rightarrow> jsval \<Rightarrow> EE list" where
  "entry s e = (case map_of (events s) e of None \<Rightarrow> [] | Some a \<Rightarrow> deref s a)"

text \<open>
  Arrays are never shortened nor overwritten: from a state to a later one, every array
  allocated in the first is a prefix of what it is in the second.
\<close>

definition ext :: "state \<Rightarrow> state \<Rightarrow> bool" where
  "ext s s' \<longleftrightarrow>
     length (heap s) \<le> length (heap s') \<and>
     (\<forall>a < length (heap s). prefix (heap s ! a) (heap s' ! a))"

text \<open>The errors that come from a listener body: a thrown value, or the error of a
  registration made by the body.\<close>

fun listener_error :: "error \<Rightarrow> bool" where
  "listener_error (Thrown v) = True"
| "listener_error (TypeError m) = (m = ''The listener must be a function'')"

text \<open>
  Bodies that neither emit nor throw: they register functions, remove listeners and read
  \<open>listenerCount\<close>.
\<close>

fun plain_action :: "action \<Rightarrow> bool" where
  "plain_action (AOn e f c) = is_function f"
| "plain_action (AOnce e f c) = is_function f"
| "plain_action (AOff e f c b) = True"
| "plain_action (ARemoveAll e) = True"
| "plain_action (AEmit e args) = False"
| "plain_action (ACount e) = True"
| "plain_action (AThrow v) = False"

fun is_invocation :: "obs \<Rightarrow> bool" where
  "is_invocation (Invoked f c args) = True"
| "is_invocation (Counted e n) = False"

definition invoked :: "jsval list \<Rightarrow> EE \<Rightarrow> obs" where
  "invoked args l = Invoked (ee_fn l) (ee_context l) args"

text \<open>
  The listeners of \<open>ls\<close> that are left once the one-shot listeners among \<open>sel\<close> have
  been selected by a dispatch: selecting a one-shot listener removes every one-shot
  listener that has its function.
\<close>

definition after_once :: "EE list \<Rightarrow> EE list \<Rightarrow> EE list" where
  "after_once sel ls =
     filter (\<lambda>x. \<not> (ee_once x \<and> ee_fn x \<in> set (map ee_fn (filter ee_once sel)))) ls"

text \<open>
  The state in which the callback of a listener selected by \<open>emit\<close> runs: a one-shot
  listener is removed first, by \<open>removeListener(event, fn, undefined, true)\<close>.
\<close>

definition selected :: "jsval \<Rightarrow> EE \<Rightarrow> state \<Rightarrow> state" where
  "selected e l s =
     (if ee_once l then removeListener e (ee_fn l) Undefined (JBool True) s else s)"


section \<open>Basic facts\<close>

lemma listenerCount_entry: "listenerCount e s = length (entry s e)"
  by (simp add: listenerCount_def entry_def split: option.splits)

lemma listeners_entry: "listeners e s = map ee_fn (entry s e)"
  by (simp add: listeners_def entry_def split: option.splits)

lemma ext_refl: "ext s s"
  by (simp add: ext_def)

lemma ext_trans: "ext s t \<Longrightarrow> ext t u \<Longrightarrow> ext s u"
  unfolding ext_def by (meson le_trans less_le_trans prefix_order.order_trans)

lemma ext_trace [simp]: "ext s (t\<lparr>trace := x\<rparr>) = ext s t" "ext (s\<lparr>trace := x\<rparr>) t = ext s t"
  by (simp_all add: ext_def)

lemma invar_trace [simp]: "invar (s\<lparr>trace := x\<rparr>) = invar s"
  by (simp add: invar_def)

lemma deref_trace [simp]: "deref (s\<lparr>trace := x\<rparr>) = deref s"
  by (simp add: deref_def fun_eq_iff)

lemma entry_trace [simp]: "entry (s\<lparr>trace := x\<rparr>) = entry s"
  by (simp add: entry_def fun_eq_iff split: option.splits)

lemma snd_update_subset: "set (map snd (AList.update k v al)) \<subseteq> insert v (set (map snd al))"
  by (induction al) auto

lemma distinct_snd_update:
  "distinct (map snd al) \<Longrightarrow> v \<notin> snd ` set al \<Longrightarrow> distinct (map snd (AList.update k v al))"
proof (induction al)
  case Nil
  then show ?case by simp
next
  case (Cons p al)
  have "set (map snd (AList.update k v al)) \<subseteq> insert v (set (map snd al))"
    by (rule snd_update_subset)
  with Cons show ?case by (auto simp: image_iff)
qed

lemma distinct_snd_delete:
  "distinct (map snd al) \<Longrightarrow> distinct (map snd (AList.delete k al))"
  by (simp add: AList.delete_eq distinct_map_filter)

lemma set_update_subset: "set (AList.update k v al) \<subseteq> insert (k, v) (set al)"
  by (induction al) auto

lemma set_delete_subset: "set (AList.delete k al) \<subseteq> set al"
  by (auto simp: AList.delete_eq)

lemma map_of_snd_distinct:
  "distinct (map snd al) \<Longrightarrow> map_of al k = Some a \<Longrightarrow> map_of al k' = Some a \<Longrightarrow> k = k'"
  by (metis distinct_map inj_on_def map_of_SomeD snd_conv fst_conv)

lemma invar_lookup:
  "invar s \<Longrightarrow> map_of (events s) e = Some a \<Longrightarrow> a < length (heap s) \<and> heap s ! a \<noteq> []"
  by (auto simp: invar_def list_all_iff dest!: map_of_SomeD)

lemma invar_new_emitter: "invar new_emitter"
  by (simp add: invar_def new_emitter_def)

lemma invar_clearEvent: "invar s \<Longrightarrow> invar (clearEvent e s)"
  using set_delete_subset[of e "events s"]
  by (auto simp: invar_def clearEvent_def distinct_delete distinct_snd_delete list_all_iff)

lemma ext_clearEvent: "ext s (clearEvent e s)"
  by (simp add: ext_def clearEvent_def)

lemma entry_clearEvent: "entry (clearEvent e s) e' = (if e' = e then [] else entry s e')"
  by (simp add: entry_def clearEvent_def delete_conv' deref_def split: option.splits)

lemma filter_neq_id: "e \<notin> set xs \<Longrightarrow> filter (\<lambda>k. k \<noteq> e) xs = xs"
  by (induction xs) auto

lemma map_of_Some_key: "map_of al k = Some v \<Longrightarrow> k \<in> set (map fst al)"
  by (induction al) (auto split: if_splits)

lemma eventNames_clearEvent: "eventNames (clearEvent e s) = filter (\<lambda>k. k \<noteq> e) (eventNames s)"
  by (simp add: eventNames_def clearEvent_def AList.delete_eq filter_map comp_def case_prod_unfold neq_commute)

subsection \<open>addListener\<close>

lemma addListener_invalid:
  "\<not> is_function f \<Longrightarrow> addListener e f c b s = (Inl InvalidListener, s)"
  by (simp add: addListener_def)

lemma addListener_fst: "is_function f \<Longrightarrow> fst (addListener e f c b s) = Inr ()"
  by (simp add: addListener_def Let_def split: option.splits)

lemma addListener_trace: "trace (snd (addListener e f c b s)) = trace s"
  by (simp add: addListener_def Let_def split: option.splits)

lemma invar_addListener:
  assumes "invar s"
  shows "invar (snd (addListener e f c b s))"
proof (cases "is_function f")
  case False
  with assms show ?thesis by (simp add: addListener_def)
next
  case True
  show ?thesis
  proof (cases "map_of (events s) e")
    case None
    have fresh: "length (heap s) \<notin> snd ` set (events s)"
      using assms by (auto simp: invar_def list_all_iff)
    have sub: "set (AList.update e (length (heap s)) (events s))
                 \<subseteq> insert (e, length (heap s)) (set (events s))"
      by (rule set_update_subset)
    have "list_all (\<lambda>(e, a). a < Suc (length (heap s)) \<and> (heap s @ [[x]]) ! a \<noteq> [])
            (AList.update e (length (heap s)) (events s))" for x
      using assms sub by (auto simp: invar_def list_all_iff nth_append)
    with assms True None fresh show ?thesis
      by (simp add: addListener_def Let_def invar_def distinct_update distinct_snd_update mkEE_def)
  next
    case (Some a)
    with assms have a: "a < length (heap s)" by (simp add: invar_lookup)
    have "list_all (\<lambda>(e, a'). a' < length (heap s) \<and> (heap s)[a := x] ! a' \<noteq> []) (events s)"
      if "x \<noteq> []" for x
      using assms that a by (fastforce simp: invar_def list_all_iff nth_list_update)
    moreover have "list_all (list_all (\<lambda>l. is_function (ee_fn l))) ((heap s)[a := heap s ! a @ [x]])"
      if "is_function (ee_fn x)" for x
      using assms that a
      by (auto simp: invar_def list_all_iff set_conv_nth nth_list_update nth_append
               split: if_splits) (metis less_Suc_eq nth_mem)+
    ultimately show ?thesis
      using assms True Some a
      by (simp add: addListener_def Let_def invar_def deref_def mkEE_def)
  qed
qed

lemma ext_addListener: "ext s (snd (addListener e f c b s))"
  by (auto simp: addListener_def Let_def ext_def nth_append nth_list_update deref_def
           split: option.splits)

lemma entry_addListener:
  assumes "invar s" "is_function f"
  shows "entry (snd (addListener e f c b s)) e' =
           (if e' = e then entry s e @ [mkEE f (if truthy c then c else JEmitter) b]
            else entry s e')"
proof (cases "map_of (events s) e")
  case None
  have "deref (s\<lparr>heap := heap s @ [x], events := y\<rparr>) a = deref s a"
    if "map_of (events s) e' = Some a" for a x y
    using invar_lookup[OF assms(1) that] by (simp add: deref_def nth_append)
  with None assms(2) show ?thesis
    by (auto simp: addListener_def Let_def entry_def update_conv' deref_def
             split: option.splits)
next
  case (Some a)
  with assms have a: "a < length (heap s)" by (simp add: invar_lookup)
  have other: "a' \<noteq> a" if "map_of (events s) e' = Some a'" "e' \<noteq> e" for a'
    using map_of_snd_distinct[of "events s" e' a e] that Some assms(1)
    by (auto simp: invar_def)
  show ?thesis
    using Some assms(2) a other
    by (auto simp: addListener_def Let_def entry_def deref_def split: option.splits)
qed

lemma eventNames_addListener:
  "is_function f \<Longrightarrow>
   eventNames (snd (addListener e f c b s)) =
     (if e \<in> set (eventNames s) then eventNames s else eventNames s @ [e])"
  by (auto simp: addListener_def Let_def eventNames_def update_keys map_of_eq_None_iff
           split: option.splits dest: map_of_Some_key)

subsection \<open>removeListener and removeAllListeners\<close>

lemma removeListener_trace: "trace (removeListener e f c b s) = trace s"
  by (simp add: removeListener_def Let_def clearEvent_def split: option.splits)

lemma removeListener_heap:
  "a < length (heap s) \<Longrightarrow> heap (removeListener e f c b s) ! a = heap s ! a"
  by (simp add: removeListener_def Let_def clearEvent_def nth_append split: option.splits)

lemma removeListener_heap_length: "length (heap s) \<le> length (heap (removeListener e f c b s))"
  by (simp add: removeListener_def Let_def clearEvent_def split: option.splits)

lemma deref_removeListener:
  "a < length (heap s) \<Longrightarrow> deref (removeListener e f c b s) a = deref s a"
  using removeListener_heap[of a s e f c b] removeListener_heap_length[of s e f c b]
  by (simp add: deref_def)

lemma ext_removeListener: "ext s (removeListener e f c b s)"
  by (simp add: ext_def removeListener_heap removeListener_heap_length)

lemma invar_removeListener:
  assumes "invar s"
  shows "invar (removeListener e f c b s)"
proof (cases "map_of (events s) e")
  case None
  with assms show ?thesis by (simp add: removeListener_def)
next
  case (Some a)
  have fresh: "length (heap s) \<notin> snd ` set (events s)"
    using assms by (auto simp: invar_def list_all_iff)
  have sub: "set (AList.update e (length (heap s)) (events s))
               \<subseteq> insert (e, length (heap s)) (set (events s))"
    by (rule set_update_subset)
  have a: "a < length (heap s)" using assms Some by (simp add: invar_lookup)
  have 1: "list_all (\<lambda>(e, a). a < Suc (length (heap s)) \<and> (heap s @ [x]) ! a \<noteq> [])
          (AList.update e (length (heap s)) (events s))" if "x \<noteq> []" for x
    using assms sub that by (auto simp: invar_def list_all_iff nth_append)
  have 2: "list_all (\<lambda>l. is_function (ee_fn l)) (filter p (heap s ! a))" for p
    using assms a by (auto simp: invar_def list_all_iff)
  show ?thesis
    using assms Some fresh 1 2 a invar_clearEvent[OF assms, of e]
    by (simp add: removeListener_def Let_def invar_def distinct_update distinct_snd_update
                  deref_def)
qed

lemma entry_removeListener:
  assumes "invar s"
  shows "entry (removeListener e f c b s) e' =
           (if e' = e then (if truthy f then filter (kept f c b) (entry s e) else [])
            else entry s e')"
proof (cases "map_of (events s) e")
  case None
  then show ?thesis by (simp add: removeListener_def entry_def)
next
  case (Some a)
  have "deref (s\<lparr>heap := heap s @ [x], events := y\<rparr>) a' = deref s a'"
    if "map_of (events s) e' = Some a'" for a' x y
    using invar_lookup[OF assms that] by (simp add: deref_def nth_append)
  with Some show ?thesis
    by (auto simp: removeListener_def Let_def entry_clearEvent)
       (auto simp: entry_def update_conv' deref_def split: option.splits)
qed

lemma eventNames_removeListener:
  assumes "invar s"
  shows "eventNames (removeListener e f c b s) =
           (if entry (removeListener e f c b s) e = [] then filter (\<lambda>k. k \<noteq> e) (eventNames s)
            else eventNames s)"
proof (cases "map_of (events s) e")
  case None
  then have "e \<notin> set (eventNames s)"
    by (simp add: eventNames_def map_of_eq_None_iff)
  then have "filter (\<lambda>k. k \<noteq> e) (eventNames s) = eventNames s"
    by (rule filter_neq_id)
  with None show ?thesis by (simp add: removeListener_def)
next
  case (Some a)
  then have "e \<in> set (eventNames s)"
    by (auto simp: eventNames_def dest: map_of_Some_key)
  then show ?thesis
    using Some entry_removeListener[OF assms, of e f c b e]
    by (auto simp: removeListener_def Let_def eventNames_clearEvent)
       (auto simp: eventNames_def update_keys entry_def deref_def split: if_splits)
qed

lemma removeAllListeners_trace: "trace (removeAllListeners e s) = trace s"
  by (simp add: removeAllListeners_def clearEvent_def)

lemma removeAllListeners_heap: "heap (removeAllListeners e s) = heap s"
  by (simp add: removeAllListeners_def clearEvent_def)

lemma ext_removeAllListeners: "ext s (removeAllListeners e s)"
  by (simp add: ext_def removeAllListeners_heap)

lemma invar_removeAllListeners: "invar s \<Longrightarrow> invar (removeAllListeners e s)"
  by (auto simp: removeAllListeners_def invar_clearEvent) (simp_all add: invar_def)

lemma entry_removeAllListeners:
  "entry (removeAllListeners e s) e' =
     (if truthy e then (if e' = e then [] else entry s e') else [])"
  by (auto simp: removeAllListeners_def entry_clearEvent) (auto simp: entry_def)

lemma eventNames_removeAllListeners:
  "eventNames (removeAllListeners e s) =
     (if truthy e then filter (\<lambda>k. k \<noteq> e) (eventNames s) else [])"
  by (auto simp: removeAllListeners_def eventNames_clearEvent)
     (simp_all add: eventNames_def map_of_eq_None_iff filter_neq_id)

section \<open>Every run keeps the invariant\<close>

lemma is_function_truthy: "is_function f \<Longrightarrow> truthy f"
  by (cases f) simp_all

lemma ext_heap:
  "ext s s' \<Longrightarrow> a < length (heap s) \<Longrightarrow> a < length (heap s') \<and> prefix (heap s ! a) (heap s' ! a)"
  by (simp add: ext_def)

lemma invar_fn:
  "invar s \<Longrightarrow> a < length (heap s) \<Longrightarrow> i < length (heap s ! a) \<Longrightarrow>
   is_function (ee_fn (heap s ! a ! i))"
  by (simp add: invar_def list_all_length)

lemma exec_safe:
  assumes em: "\<And>e args s r s'. invar s \<Longrightarrow> em e args s = Some (r, s') \<Longrightarrow>
                 invar s' \<and> ext s s' \<and> (\<forall>err. r = Inl err \<longrightarrow> listener_error err)"
  shows "invar s \<Longrightarrow> exec em body s = Some (r, s') \<Longrightarrow>
         invar s' \<and> ext s s' \<and> (\<forall>err. r = Inl err \<longrightarrow> listener_error err)"
proof (induction body arbitrary: s)
  case Nil
  then show ?case by (auto simp: ext_refl)
next
  case (Cons x as)
  note IH = Cons.IH and inv = Cons.prems(1) and run = Cons.prems(2)
  have reg: ?case
    if x: "exec em (x # as) s =
             (case addListener e f c b s of
                (Inl err, t) \<Rightarrow> Some (Inl err, t)
              | (Inr u, t) \<Rightarrow> exec em as t)" for e f c b
  proof (cases "is_function f")
    case False
    with run x inv show ?thesis
      by (auto simp: addListener_invalid InvalidListener_def ext_refl)
  next
    case True
    define t where "t = snd (addListener e f c b s)"
    have at: "addListener e f c b s = (Inr (), t)"
      using addListener_fst[OF True, of e c b s] by (simp add: t_def prod_eq_iff)
    have "invar t" "ext s t"
      using inv by (simp_all add: t_def invar_addListener ext_addListener)
    moreover have "exec em as t = Some (r, s')" using run x at by simp
    ultimately show ?thesis using IH[of t] ext_trans by blast
  qed
  show ?case
  proof (cases x)
    case (AOn e f c)
    then show ?thesis by (intro reg[of e f c False]) (simp add: on_def)
  next
    case (AOnce e f c)
    then show ?thesis by (intro reg[of e f c True]) (simp add: once_def)
  next
    case (AOff e f c b)
    have "invar (off e f c b s)" "ext s (off e f c b s)"
      using inv by (simp_all add: off_def invar_removeListener ext_removeListener)
    then show ?thesis using IH[of "off e f c b s"] run AOff ext_trans by fastforce
  next
    case (ARemoveAll e)
    have "invar (removeAllListeners e s)" "ext s (removeAllListeners e s)"
      using inv by (simp_all add: invar_removeAllListeners ext_removeAllListeners)
    then show ?thesis using IH[of "removeAllListeners e s"] run ARemoveAll ext_trans by fastforce
  next
    case (AEmit e args)
    with run obtain r1 t where et: "em e args s = Some (r1, t)"
      by (cases "em e args s") auto
    from em[OF inv et]
    have t: "invar t" "ext s t" "\<forall>err. r1 = Inl err \<longrightarrow> listener_error err" by simp_all
    show ?thesis
    proof (cases r1)
      case (Inl err)
      with run et t AEmit show ?thesis by auto
    next
      case (Inr b)
      with run et AEmit have "exec em as t = Some (r, s')" by simp
      with IH[of t] t show ?thesis using ext_trans by blast
    qed
  next
    case (ACount e)
    with run IH[of "s\<lparr>trace := trace s @ [Counted e (listenerCount e s)]\<rparr>"] inv
    show ?thesis by simp
  next
    case (AThrow v)
    with run inv show ?thesis by (auto simp: ext_refl)
  qed
qed

lemma call_listener_safe:
  assumes em: "\<And>e args s r s'. invar s \<Longrightarrow> em e args s = Some (r, s') \<Longrightarrow>
                 invar s' \<and> ext s s' \<and> (\<forall>err. r = Inl err \<longrightarrow> listener_error err)"
    and "invar s" "is_function (ee_fn l)" "call_listener em P l args s = Some (r, s')"
  shows "invar s' \<and> ext s s' \<and> (\<forall>err. r = Inl err \<longrightarrow> listener_error err)"
proof -
  from assms(3) obtain n where n: "ee_fn l = JFun n" by (cases "ee_fn l") simp_all
  let ?t = "s\<lparr>trace := trace s @ [Invoked (ee_fn l) (ee_context l) args]\<rparr>"
  have "exec em (P n) ?t = Some (r, s')"
    using assms(4) n by (simp add: call_listener_def)
  moreover have "invar ?t" using assms(2) by simp
  ultimately have "invar s' \<and> ext ?t s' \<and> (\<forall>err. r = Inl err \<longrightarrow> listener_error err)"
    using exec_safe[of em ?t "P n" r s'] em by blast
  then show ?thesis by simp
qed

lemma emit_loop_done: "\<not> i < n \<Longrightarrow> emit_loop call e args a i n s = Some (Inr True, s)"
  by (subst emit_loop.simps) simp

lemma emit_loop_step:
  assumes "i < n" "a < length (heap s)" "i < length (heap s ! a)"
  shows "emit_loop call e args a i n s =
           (case call (heap s ! a ! i) args
                   (if ee_once (heap s ! a ! i)
                    then removeListener e (ee_fn (heap s ! a ! i)) Undefined (JBool True) s
                    else s) of
              None \<Rightarrow> None
            | Some (Inl err, s2) \<Rightarrow> Some (Inl err, s2)
            | Some (Inr u, s2) \<Rightarrow> emit_loop call e args a (Suc i) n s2)"
proof -
  have d: "deref s a = heap s ! a" using assms(2) by (simp add: deref_def)
  have d1: "deref (removeListener e f Undefined (JBool True) s) a = heap s ! a" for f
    using assms(2) d by (simp add: deref_removeListener)
  show ?thesis
    by (subst emit_loop.simps) (simp add: assms d d1 Let_def)
qed

lemma emit_loop_safe:
  assumes call: "\<And>l s r s'. invar s \<Longrightarrow> is_function (ee_fn l) \<Longrightarrow>
                   call l args s = Some (r, s') \<Longrightarrow>
                   invar s' \<and> ext s s' \<and> (\<forall>err. r = Inl err \<longrightarrow> listener_error err)"
  shows "invar s \<Longrightarrow> a < length (heap s) \<Longrightarrow> n \<le> length (heap s ! a) \<Longrightarrow>
         emit_loop call e args a i n s = Some (r, s') \<Longrightarrow>
         invar s' \<and> ext s s' \<and> (\<forall>err. r = Inl err \<longrightarrow> listener_error err)"
proof (induction "n - i" arbitrary: i s)
  case 0
  then show ?case by (auto simp: emit_loop_done ext_refl)
next
  case (Suc d)
  then have i: "i < n" by simp
  let ?l = "heap s ! a ! i"
  define s1 where
    "s1 = (if ee_once ?l then removeListener e (ee_fn ?l) Undefined (JBool True) s else s)"
  have s1: "invar s1" "ext s s1"
    using Suc.prems(1,2)
    by (simp_all add: s1_def invar_removeListener ext_removeListener ext_refl)
  have il: "i < length (heap s ! a)" using i Suc.prems(3) by simp
  have fn: "is_function (ee_fn ?l)" using invar_fn[OF Suc.prems(1,2) il] .
  have unf: "emit_loop call e args a i n s =
        (case call ?l args s1 of
           None \<Rightarrow> None
         | Some (Inl err, s2) \<Rightarrow> Some (Inl err, s2)
         | Some (Inr u, s2) \<Rightarrow> emit_loop call e args a (Suc i) n s2)"
    unfolding s1_def by (rule emit_loop_step[OF i Suc.prems(2) il])
  with Suc.prems(4) obtain r1 s2 where c: "call ?l args s1 = Some (r1, s2)"
    by (cases "call ?l args s1") auto
  from call[OF s1(1) fn c]
  have s2: "invar s2" "ext s1 s2" "\<forall>err. r1 = Inl err \<longrightarrow> listener_error err" by simp_all
  have ss2: "ext s s2" using s1(2) s2(2) by (rule ext_trans)
  show ?case
  proof (cases r1)
    case (Inl err)
    with Suc.prems(4) unf c s2 ss2 show ?thesis by auto
  next
    case (Inr u)
    with Suc.prems(4) unf c have rest: "emit_loop call e args a (Suc i) n s2 = Some (r, s')"
      by simp
    have a2: "a < length (heap s2)" and p2: "prefix (heap s ! a) (heap s2 ! a)"
      using ext_heap[OF ss2 Suc.prems(2)] by simp_all
    have n2: "n \<le> length (heap s2 ! a)"
      using p2 Suc.prems(3) by (meson le_trans prefix_length_le)
    have "d = n - Suc i" using Suc.hyps(2) by simp
    from Suc.hyps(1)[OF this s2(1) a2 n2 rest] ss2 show ?thesis
      using ext_trans by blast
  qed
qed

lemma emit_safe:
  "invar s \<Longrightarrow> emit P k e args s = Some (r, s') \<Longrightarrow>
   invar s' \<and> ext s s' \<and> (\<forall>err. r = Inl err \<longrightarrow> listener_error err)"
proof (induction k arbitrary: e args s r s')
  case 0
  then show ?case by simp
next
  case (Suc k)
  show ?case
  proof (cases "map_of (events s) e")
    case None
    with Suc.prems show ?thesis by (auto simp: ext_refl)
  next
    case (Some a)
    have a: "a < length (heap s)" using Suc.prems(1) Some by (simp add: invar_lookup)
    show ?thesis
    proof (cases "length (deref s a) = 0")
      case True
      with Suc.prems Some show ?thesis by (auto simp: ext_refl)
    next
      case False
      with Suc.prems(2) Some a
      have run: "emit_loop (call_listener (emit P k) P) e args a 0 (length (heap s ! a)) s
                   = Some (r, s')"
        by (simp add: deref_def)
      show ?thesis
      proof (rule emit_loop_safe[OF _ Suc.prems(1) a _ run])
        fix l t r1 t'
        assume "invar t" "is_function (ee_fn l)"
          "call_listener (emit P k) P l args t = Some (r1, t')"
        then show "invar t' \<and> ext t t' \<and> (\<forall>err. r1 = Inl err \<longrightarrow> listener_error err)"
          using call_listener_safe[of "emit P k" t l P args r1 t'] Suc.IH by blast
      qed simp
    qed
  qed
qed

section \<open>Rules for the dispatch loop\<close>

lemma emit_loop_split:
  "i \<le> k \<Longrightarrow> k \<le> n \<Longrightarrow> emit_loop call e args a i k s = Some (Inr b, s1) \<Longrightarrow>
   emit_loop call e args a i n s = emit_loop call e args a k n s1"
proof (induction "k - i" arbitrary: i s)
  case 0
  then show ?case by (simp add: emit_loop_done)
next
  case (Suc d)
  then have ik: "i < k" and "i < n" by simp_all
  have d: "d = k - Suc i" using Suc.hyps(2) by simp
  show ?case
    using Suc.prems(3) Suc.hyps(1)[OF d _ Suc.prems(2)] ik \<open>i < n\<close>
    by (subst emit_loop.simps, subst (asm) emit_loop.simps)
       (auto simp: Let_def split: if_splits option.splits sum.splits prod.splits)
qed

lemma emit_loop_total:
  assumes step: "\<And>i s. i < n \<Longrightarrow> invar s \<Longrightarrow> I i s \<Longrightarrow>
      \<exists>s2. call (ls ! i) args
             (if ee_once (ls ! i)
              then removeListener e (ee_fn (ls ! i)) Undefined (JBool True) s else s)
             = Some (Inr (), s2) \<and> invar s2 \<and> ext s s2 \<and> I (Suc i) s2"
  shows "I i s \<Longrightarrow> invar s \<Longrightarrow> a < length (heap s) \<Longrightarrow> prefix ls (heap s ! a) \<Longrightarrow>
         n = length ls \<Longrightarrow> i \<le> n \<Longrightarrow>
         \<exists>s'. emit_loop call e args a i n s = Some (Inr True, s') \<and> invar s' \<and> ext s s' \<and> I n s'"
proof (induction "n - i" arbitrary: i s)
  case 0
  then show ?case by (auto simp: emit_loop_done ext_refl)
next
  case (Suc d)
  then have i: "i < n" by simp
  have il: "i < length (heap s ! a)"
    using i Suc.prems(4,5) by (metis less_le_trans prefix_length_le)
  have l: "heap s ! a ! i = ls ! i"
    using i Suc.prems(4,5) by (metis prefix_def nth_append)
  from step[OF i Suc.prems(2,1)] obtain s2 where
    c: "call (ls ! i) args
          (if ee_once (ls ! i)
           then removeListener e (ee_fn (ls ! i)) Undefined (JBool True) s else s)
        = Some (Inr (), s2)"
    and s2: "invar s2" "ext s s2" "I (Suc i) s2" by blast
  have unf: "emit_loop call e args a i n s = emit_loop call e args a (Suc i) n s2"
    unfolding emit_loop_step[OF i Suc.prems(3) il, of call e args] l c by simp
  have a2: "a < length (heap s2)" and p2: "prefix (heap s ! a) (heap s2 ! a)"
    using ext_heap[OF s2(2) Suc.prems(3)] by simp_all
  have pl: "prefix ls (heap s2 ! a)" using Suc.prems(4) p2 by (rule prefix_order.order_trans)
  have "d = n - Suc i" using Suc.hyps(2) by simp
  from Suc.hyps(1)[OF this s2(3) s2(1) a2 pl Suc.prems(5)] i
  obtain s' where "emit_loop call e args a (Suc i) n s2 = Some (Inr True, s')"
    "invar s'" "ext s2 s'" "I n s'" by auto
  with unf s2(2) show ?case using ext_trans by metis
qed

lemma exec_plain:
  "list_all plain_action body \<Longrightarrow> invar s \<Longrightarrow>
   \<exists>s'. exec em body s = Some (Inr (), s') \<and> invar s' \<and> ext s s' \<and>
        filter is_invocation (trace s') = filter is_invocation (trace s)"
proof (induction body arbitrary: s)
  case Nil
  then show ?case by (simp add: ext_refl)
next
  case (Cons x as)
  then have as: "list_all plain_action as" and inv: "invar s" by simp_all
  have cont: ?case
    if "exec em (x # as) s = exec em as t" "invar t" "ext s t"
       "filter is_invocation (trace t) = filter is_invocation (trace s)" for t
  proof -
    from Cons.IH[OF as that(2)] obtain s' where
      "exec em as t = Some (Inr (), s')" "invar s'" "ext t s'"
      "filter is_invocation (trace s') = filter is_invocation (trace t)" by blast
    with that(1,3,4) ext_trans[OF that(3)] show ?thesis by auto
  qed
  have reg: ?case
    if x: "exec em (x # as) s =
             (case addListener e f c b s of
                (Inl err, t) \<Rightarrow> Some (Inl err, t)
              | (Inr u, t) \<Rightarrow> exec em as t)" and f: "is_function f" for e f c b
  proof -
    define t where "t = snd (addListener e f c b s)"
    have at: "addListener e f c b s = (Inr (), t)"
      using addListener_fst[OF f, of e c b s] by (simp add: t_def prod_eq_iff)
    have "invar t" "ext s t" "trace t = trace s"
      using inv by (simp_all add: t_def invar_addListener ext_addListener addListener_trace)
    moreover have "exec em (x # as) s = exec em as t" by (simp add: x at)
    ultimately show ?thesis by (intro cont[of t]) simp_all
  qed
  show ?case
  proof (cases x)
    case (AOn e f c)
    with Cons.prems show ?thesis by (intro reg[of e f c False]) (simp_all add: on_def)
  next
    case (AOnce e f c)
    with Cons.prems show ?thesis by (intro reg[of e f c True]) (simp_all add: once_def)
  next
    case (AOff e f c b)
    show ?thesis
      by (rule cont[of "off e f c b s"])
         (simp_all add: AOff off_def invar_removeListener inv ext_removeListener
                        removeListener_trace)
  next
    case (ARemoveAll e)
    show ?thesis
      by (rule cont[of "removeAllListeners e s"])
         (simp_all add: ARemoveAll invar_removeAllListeners inv ext_removeAllListeners
                        removeAllListeners_trace)
  next
    case (AEmit e args)
    with Cons.prems show ?thesis by simp
  next
    case (ACount e)
    show ?thesis
      by (rule cont[of "s\<lparr>trace := trace s @ [Counted e (listenerCount e s)]\<rparr>"])
         (simp_all add: ACount inv ext_refl)
  next
    case (AThrow v)
    with Cons.prems show ?thesis by simp
  qed
qed

section \<open>Registration\<close>


lemma eventNames_iff_count:
  assumes "invar s"
  shows "e \<in> set (eventNames s) \<longleftrightarrow> 0 < listenerCount e s"
proof (cases "map_of (events s) e")
  case None
  then have "e \<notin> set (eventNames s)"
    by (simp add: eventNames_def map_of_eq_None_iff)
  moreover have "listenerCount e s = 0"
    using None by (simp add: listenerCount_def)
  ultimately show ?thesis by simp
next
  case (Some a)
  with invar_lookup[OF assms Some] show ?thesis
    by (auto simp: eventNames_def listenerCount_def deref_def dest: map_of_Some_key)
qed

lemma addListener_error:
  "fst (addListener e f c b s) = Inl err \<longleftrightarrow> \<not> is_function f \<and> err = InvalidListener"
  by (auto simp: addListener_def Let_def split: option.splits)

lemma addListener_atomic:
  "\<not> is_function f \<Longrightarrow> snd (addListener e f c b s) = s"
  by (simp add: addListener_def)

text \<open>
  C5: \<open>on\<close>, \<open>once\<close> and \<open>addListener\<close> raise \<open>InvalidListener\<close> exactly when
  the callback is not a function, and then leave the state as it was; they raise nothing
  else. Removal and the queries have no error result at all, and an error that comes out
  of \<open>emit\<close> was raised by a listener body (a thrown value, or \<open>InvalidListener\<close> from
  a registration made by the body), never by the dispatch itself.
\<close>

theorem invalid_listener_only_error:
  "(fst (on e f c s) = Inl InvalidListener \<longleftrightarrow> \<not> is_function f) \<and>
   (fst (once e f c s) = Inl InvalidListener \<longleftrightarrow> \<not> is_function f) \<and>
   (fst (addListener_method e f c s) = Inl InvalidListener \<longleftrightarrow> \<not> is_function f) \<and>
   (\<forall>err. fst (on e f c s) = Inl err \<longrightarrow> err = InvalidListener \<and> snd (on e f c s) = s) \<and>
   (\<forall>err. fst (once e f c s) = Inl err \<longrightarrow> err = InvalidListener \<and> snd (once e f c s) = s) \<and>
   (\<forall>err. fst (addListener_method e f c s) = Inl err \<longrightarrow>
       err = InvalidListener \<and> snd (addListener_method e f c s) = s) \<and>
   (\<forall>err s'. invar s \<longrightarrow> emit P k e args s = Some (Inl err, s') \<longrightarrow> listener_error err)"
  using emit_safe[of s P k e args]
  by (auto simp: on_def once_def addListener_method_def addListener_error addListener_atomic)

theorem invalid_listener_only_error_witness:
  "fst (on (JStr ''connect'') (JStr ''f'') Undefined new_emitter) = Inl InvalidListener \<and>
   snd (on (JStr ''connect'') (JStr ''f'') Undefined new_emitter) = new_emitter \<and>
   fst (once (JStr ''connect'') (JFun 1) Undefined new_emitter) \<noteq> Inl InvalidListener \<and>
   emit (\<lambda>n. [AThrow (JStr ''boom'')]) 1 (JStr ''connect'') []
        (snd (on (JStr ''connect'') (JFun 1) Undefined new_emitter))
     = Some (Inl (Thrown (JStr ''boom'')),
             snd (on (JStr ''connect'') (JFun 1) Undefined new_emitter)
               \<lparr>trace := [Invoked (JFun 1) JEmitter []]\<rparr>) \<and>
   listener_error (Thrown (JStr ''boom''))"
proof -
  let ?s = "snd (on (JStr ''connect'') (JFun 1) Undefined new_emitter)"
  have inv: "invar ?s" by (simp add: on_def invar_addListener invar_new_emitter)
  have run: "emit (\<lambda>n. [AThrow (JStr ''boom'')]) 1 (JStr ''connect'') [] ?s
     = Some (Inl (Thrown (JStr ''boom'')), ?s\<lparr>trace := [Invoked (JFun 1) JEmitter []]\<rparr>)"
    by (simp add: on_def addListener_def new_emitter_def mkEE_def deref_def
                  emit_loop.simps call_listener_def)
  from invalid_listener_only_error[of "JStr ''connect''" "JStr ''f''" Undefined new_emitter]
    invalid_listener_only_error[of "JStr ''connect''" "JFun 1" Undefined new_emitter]
    invalid_listener_only_error[of "JStr ''connect''" _ _ ?s "\<lambda>n. [AThrow (JStr ''boom'')]" 1 "[]"]
    inv run
  show ?thesis by simp
qed

text \<open>
  C10: a registration whose context argument is falsy (\<open>undefined\<close>, \<open>null\<close>,
  \<open>0\<close>, the empty string or \<open>false\<close>) is the registration with the context omitted,
  and the listener it appends is bound to the registry instance.
\<close>

theorem falsy_context_is_emitter:
  assumes "c \<in> set [Undefined, Null, JNum 0, JStr [], JBool False]"
  shows "on e f c s = on e f Undefined s \<and>
         once e f c s = once e f Undefined s \<and>
         addListener_method e f c s = addListener_method e f Undefined s \<and>
         (invar s \<and> is_function f \<longrightarrow>
            entry (snd (on e f c s)) e
              = entry s e @ [\<lparr>ee_fn = f, ee_context = JEmitter, ee_once = False\<rparr>] \<and>
            entry (snd (once e f c s)) e
              = entry s e @ [\<lparr>ee_fn = f, ee_context = JEmitter, ee_once = True\<rparr>] \<and>
            entry (snd (addListener_method e f c s)) e
              = entry s e @ [\<lparr>ee_fn = f, ee_context = JEmitter, ee_once = False\<rparr>])"
proof -
  from assms have c: "\<not> truthy c" by auto
  then have "addListener e f c b s = addListener e f Undefined b s" for b
    by (simp add: addListener_def)
  then show ?thesis
    using c by (simp add: on_def once_def addListener_method_def entry_addListener mkEE_def)
qed

theorem falsy_context_is_emitter_witness:
  "JNum 0 \<in> set [Undefined, Null, JNum 0, JStr [], JBool False] \<and>
   invar new_emitter \<and> is_function (JFun 1) \<and>
   on (JStr ''connect'') (JFun 1) (JNum 0) new_emitter
     = on (JStr ''connect'') (JFun 1) Undefined new_emitter \<and>
   entry (snd (once (JStr ''connect'') (JFun 1) (JNum 0) new_emitter)) (JStr ''connect'')
     = [\<lparr>ee_fn = JFun 1, ee_context = JEmitter, ee_once = True\<rparr>]"
proof -
  have h: "JNum 0 \<in> set [Undefined, Null, JNum 0, JStr [], JBool False]" by simp
  have e: "entry new_emitter (JStr ''connect'') = []" by (simp add: entry_def new_emitter_def)
  have f: "is_function (JFun 1)" by simp
  note t = falsy_context_is_emitter[OF h, of "JStr ''connect''" "JFun 1" new_emitter]
  have 1: "on (JStr ''connect'') (JFun 1) (JNum 0) new_emitter
             = on (JStr ''connect'') (JFun 1) Undefined new_emitter"
    using t by blast
  have 2: "entry (snd (once (JStr ''connect'') (JFun 1) (JNum 0) new_emitter)) (JStr ''connect'')
             = entry new_emitter (JStr ''connect'')
                 @ [\<lparr>ee_fn = JFun 1, ee_context = JEmitter, ee_once = True\<rparr>]"
    using t invar_new_emitter f by blast
  show ?thesis using h 1 2 invar_new_emitter f unfolding e by simp
qed

section \<open>Dispatch over listeners that do not emit\<close>

lemma after_once_Nil: "after_once [] ls = ls"
  by (simp add: after_once_def)

lemma after_once_snoc:
  "after_once (sel @ [l]) ls =
     (if ee_once l then filter (kept (ee_fn l) Undefined (JBool True)) (after_once sel ls)
      else after_once sel ls)"
  by (auto simp: after_once_def kept_def intro!: filter_cong)

lemma after_once_all: "after_once ls ls = filter (\<lambda>l. \<not> ee_once l) ls"
  by (auto simp: after_once_def intro!: filter_cong)

lemma call_listener_quiet:
  "ee_fn l = JFun m \<Longrightarrow> P m = [] \<Longrightarrow>
   call_listener em P l args s = Some (Inr (), s\<lparr>trace := trace s @ [invoked args l]\<rparr>)"
  by (simp add: call_listener_def invoked_def)

lemma emit_loop_quiet:
  assumes quiet: "\<forall>l \<in> set ls. \<exists>m. ee_fn l = JFun m \<and> P m = []"
    and inv: "invar s" and a: "a < length (heap s)" and pre: "prefix ls (heap s ! a)"
    and n: "n = length ls" and full: "entry s e = full"
  shows "\<exists>s'. emit_loop (call_listener em P) e args a 0 n s = Some (Inr True, s') \<and>
              invar s' \<and> ext s s' \<and>
              trace s' = trace s @ map (invoked args) ls \<and>
              entry s' e = after_once ls full \<and> (\<forall>e'. e' \<noteq> e \<longrightarrow> entry s' e' = entry s e')"
proof -
  define I where "I = (\<lambda>i (t::state). trace t = trace s @ map (invoked args) (take i ls) \<and>
              entry t e = after_once (take i ls) full \<and>
              (\<forall>e'. e' \<noteq> e \<longrightarrow> entry t e' = entry s e'))"
  have step: "\<exists>s2. call_listener em P (ls ! i) args
             (if ee_once (ls ! i)
              then removeListener e (ee_fn (ls ! i)) Undefined (JBool True) t else t)
             = Some (Inr (), s2) \<and> invar s2 \<and> ext t s2 \<and> I (Suc i) s2"
    if i: "i < n" and it: "invar t" and I: "I i t" for i t
  proof -
    let ?l = "ls ! i"
    let ?t1 = "if ee_once ?l then removeListener e (ee_fn ?l) Undefined (JBool True) t else t"
    from quiet i n obtain m where m: "ee_fn ?l = JFun m" "P m = []"
      by (metis nth_mem)
    have t1: "invar ?t1" "ext t ?t1" "trace ?t1 = trace t"
      using it by (simp_all add: invar_removeListener ext_removeListener ext_refl
                                 removeListener_trace)
    have e1: "entry ?t1 e' = (if e' = e then after_once (take (Suc i) ls) full else entry s e')"
      for e'
      using I i n m(1) it
      by (simp add: I_def take_Suc_conv_app_nth after_once_snoc entry_removeListener)
    let ?s2 = "?t1\<lparr>trace := trace ?t1 @ [invoked args ?l]\<rparr>"
    have "call_listener em P ?l args ?t1 = Some (Inr (), ?s2)"
      using m by (rule call_listener_quiet)
    moreover have "invar ?s2" "ext t ?s2" using t1 by simp_all
    moreover have "I (Suc i) ?s2"
      using I i n t1(3) e1 unfolding I_def
      by (simp add: take_Suc_conv_app_nth)
    ultimately show ?thesis by blast
  qed
  have I0: "I 0 s" by (simp add: I_def after_once_Nil full)
  from emit_loop_total[of n I "call_listener em P" ls args e 0 s a, OF step I0 inv a pre n]
  show ?thesis by (auto simp: I_def n)
qed

lemma call_listener_plain:
  assumes "ee_fn l = JFun m" "list_all plain_action (P m)" "invar s"
  shows "\<exists>s'. call_listener em P l args s = Some (Inr (), s') \<and> invar s' \<and> ext s s' \<and>
          filter is_invocation (trace s') = filter is_invocation (trace s) @ [invoked args l]"
proof -
  let ?t = "s\<lparr>trace := trace s @ [Invoked (ee_fn l) (ee_context l) args]\<rparr>"
  have "invar ?t" using assms(3) by simp
  from exec_plain[OF assms(2) this, of em] show ?thesis
    using assms(1) by (auto simp: call_listener_def invoked_def)
qed

lemma emit_loop_plain:
  assumes plain: "\<forall>l \<in> set ls. \<exists>m. ee_fn l = JFun m \<and> list_all plain_action (P m)"
    and inv: "invar s" and a: "a < length (heap s)" and pre: "prefix ls (heap s ! a)"
    and n: "n = length ls"
  shows "\<exists>s'. emit_loop (call_listener em P) e args a 0 n s = Some (Inr True, s') \<and>
              invar s' \<and> ext s s' \<and>
              filter is_invocation (trace s')
                = filter is_invocation (trace s) @ map (invoked args) ls"
proof -
  define I where "I = (\<lambda>i (t::state). filter is_invocation (trace t)
              = filter is_invocation (trace s) @ map (invoked args) (take i ls))"
  have step: "\<exists>s2. call_listener em P (ls ! i) args
             (if ee_once (ls ! i)
              then removeListener e (ee_fn (ls ! i)) Undefined (JBool True) t else t)
             = Some (Inr (), s2) \<and> invar s2 \<and> ext t s2 \<and> I (Suc i) s2"
    if i: "i < n" and it: "invar t" and I: "I i t" for i t
  proof -
    let ?l = "ls ! i"
    let ?t1 = "if ee_once ?l then removeListener e (ee_fn ?l) Undefined (JBool True) t else t"
    from plain i n obtain m where m: "ee_fn ?l = JFun m" "list_all plain_action (P m)"
      by (metis nth_mem)
    have t1: "invar ?t1" "ext t ?t1" "trace ?t1 = trace t"
      using it by (simp_all add: invar_removeListener ext_removeListener ext_refl
                                 removeListener_trace)
    from call_listener_plain[of ?l m P ?t1 em args, OF m t1(1)] obtain s2 where
      s2: "call_listener em P ?l args ?t1 = Some (Inr (), s2)" "invar s2" "ext ?t1 s2"
        "filter is_invocation (trace s2) = filter is_invocation (trace ?t1) @ [invoked args ?l]"
      by blast
    have "ext t s2" using t1(2) s2(3) by (rule ext_trans)
    moreover have "I (Suc i) s2"
      using I i n s2(4) t1(3) unfolding I_def by (simp add: take_Suc_conv_app_nth)
    ultimately show ?thesis using s2(1,2) by blast
  qed
  have I0: "I 0 s" by (simp add: I_def)
  from emit_loop_total[of n I "call_listener em P" ls args e 0 s a, OF step I0 inv a pre n]
  show ?thesis by (auto simp: I_def n)
qed

lemma invar_entry:
  assumes "invar s" "entry s e \<noteq> []"
  shows "\<exists>a. map_of (events s) e = Some a \<and> a < length (heap s) \<and> heap s ! a = entry s e
              \<and> deref s a = entry s e"
  using assms invar_lookup[OF assms(1), of e]
  by (auto simp: entry_def deref_def split: option.splits)

lemma invar_entry_fn:
  assumes "invar s" "l \<in> set (entry s e)"
  shows "\<exists>m. ee_fn l = JFun m"
proof -
  from assms have "entry s e \<noteq> []" by auto
  from invar_entry[OF assms(1) this] obtain a where
    a: "a < length (heap s)" "heap s ! a = entry s e" by blast
  with assms have "is_function (ee_fn l)"
    by (auto simp: invar_def list_all_iff) (metis nth_mem)
  then show ?thesis by (cases "ee_fn l") simp_all
qed

lemma emit_unfold:
  assumes "invar s" "entry s e \<noteq> []"
  shows "\<exists>a. a < length (heap s) \<and> heap s ! a = entry s e \<and>
             emit P (Suc k) e args s
               = emit_loop (call_listener (emit P k) P) e args a 0 (length (entry s e)) s"
proof -
  from invar_entry[OF assms] obtain a where
    a: "map_of (events s) e = Some a" "a < length (heap s)" "heap s ! a = entry s e"
       "deref s a = entry s e" by blast
  with assms(2) show ?thesis by auto
qed

lemma emit_none: "entry s e = [] \<Longrightarrow> emit P (Suc k) e args s = Some (Inr False, s)"
  by (auto simp: entry_def split: option.splits)

lemma emit_quiet:
  assumes inv: "invar s" and ne: "entry s e \<noteq> []"
    and quiet: "\<forall>l \<in> set (entry s e). \<forall>m. ee_fn l = JFun m \<longrightarrow> P m = []"
  shows "\<exists>s'. emit P (Suc k) e args s = Some (Inr True, s') \<and> invar s' \<and> ext s s' \<and>
              trace s' = trace s @ map (invoked args) (entry s e) \<and>
              entry s' e = filter (\<lambda>l. \<not> ee_once l) (entry s e) \<and>
              (\<forall>e'. e' \<noteq> e \<longrightarrow> entry s' e' = entry s e')"
proof -
  from emit_unfold[OF inv ne, of P k args] obtain a where
    a: "a < length (heap s)" "heap s ! a = entry s e"
    "emit P (Suc k) e args s
       = emit_loop (call_listener (emit P k) P) e args a 0 (length (entry s e)) s" by blast
  have q: "\<forall>l \<in> set (entry s e). \<exists>m. ee_fn l = JFun m \<and> P m = []"
    using quiet invar_entry_fn[OF inv] by blast
  have pre: "prefix (entry s e) (heap s ! a)" using a(2) by simp
  from emit_loop_quiet[OF q inv a(1) pre refl refl, of "emit P k" e args]
  show ?thesis unfolding a(3) by (simp add: after_once_all)
qed

lemma emit_plain:
  assumes inv: "invar s" and ne: "entry s e \<noteq> []"
    and plain: "\<forall>l \<in> set (entry s e). \<forall>m. ee_fn l = JFun m \<longrightarrow> list_all plain_action (P m)"
  shows "\<exists>s'. emit P (Suc k) e args s = Some (Inr True, s') \<and> invar s' \<and> ext s s' \<and>
              filter is_invocation (trace s')
                = filter is_invocation (trace s) @ map (invoked args) (entry s e)"
proof -
  from emit_unfold[OF inv ne, of P k args] obtain a where
    a: "a < length (heap s)" "heap s ! a = entry s e"
    "emit P (Suc k) e args s
       = emit_loop (call_listener (emit P k) P) e args a 0 (length (entry s e)) s" by blast
  have q: "\<forall>l \<in> set (entry s e). \<exists>m. ee_fn l = JFun m \<and> list_all plain_action (P m)"
    using plain invar_entry_fn[OF inv] by blast
  have pre: "prefix (entry s e) (heap s ! a)" using a(2) by simp
  from emit_loop_plain[OF q inv a(1) pre refl, of "emit P k" e args]
  show ?thesis unfolding a(3) by simp
qed

section \<open>Dispatch, isolation and the table invariant\<close>

lemma entry_new_emitter: "entry new_emitter e = []"
  by (simp add: entry_def new_emitter_def)

lemma trace_new_emitter: "trace new_emitter = []"
  by (simp add: new_emitter_def)

lemma invar_on: "invar s \<Longrightarrow> invar (snd (on e f c s))"
  by (simp add: on_def invar_addListener)

lemma invar_once: "invar s \<Longrightarrow> invar (snd (once e f c s))"
  by (simp add: once_def invar_addListener)

lemma entry_on:
  "invar s \<Longrightarrow> is_function f \<Longrightarrow>
   entry (snd (on e f c s)) e' =
     (if e' = e
      then entry s e @ [\<lparr>ee_fn = f, ee_context = (if truthy c then c else JEmitter),
                           ee_once = False\<rparr>]
      else entry s e')"
  by (simp add: on_def entry_addListener mkEE_def)

lemma entry_once:
  "invar s \<Longrightarrow> is_function f \<Longrightarrow>
   entry (snd (once e f c s)) e' =
     (if e' = e
      then entry s e @ [\<lparr>ee_fn = f, ee_context = (if truthy c then c else JEmitter),
                           ee_once = True\<rparr>]
      else entry s e')"
  by (simp add: once_def entry_addListener mkEE_def)

lemma trace_on: "trace (snd (on e f c s)) = trace s"
  by (simp add: on_def addListener_trace)

lemma trace_once: "trace (snd (once e f c s)) = trace s"
  by (simp add: once_def addListener_trace)

lemmas built = invar_new_emitter invar_on invar_once entry_on entry_once entry_new_emitter
  trace_on trace_once trace_new_emitter listenerCount_entry listeners_entry

text \<open>
  C1: when the event has \<open>n \<ge> 1\<close> listeners and none of their bodies throws or calls the
  registry, \<open>emit\<close> returns \<open>true\<close> and invokes exactly these \<open>n\<close> listeners, in the order
  of the table entry (registration order), each with its bound context as receiver and
  the arguments of the call; when the event has no listener, \<open>emit\<close> returns \<open>false\<close>
  and the state is the one it started from.
\<close>

theorem emit_invokes_listeners_in_order:
  assumes "invar s"
    and "\<forall>l \<in> set (entry s e). \<forall>m. ee_fn l = JFun m \<longrightarrow> P m = []"
  shows "(0 < listenerCount e s \<longrightarrow>
            (\<exists>s'. emit P (Suc k) e args s = Some (Inr True, s') \<and>
                  trace s' = trace s
                     @ map (\<lambda>l. Invoked (ee_fn l) (ee_context l) args) (entry s e) \<and>
                  length (entry s e) = listenerCount e s)) \<and>
         (listenerCount e s = 0 \<longrightarrow> emit P (Suc k) e args s = Some (Inr False, s))"
proof (intro conjI impI)
  assume "0 < listenerCount e s"
  then have ne: "entry s e \<noteq> []" by (simp add: listenerCount_entry)
  from emit_quiet[OF assms(1) ne assms(2), of k args]
  show "\<exists>s'. emit P (Suc k) e args s = Some (Inr True, s') \<and>
             trace s' = trace s @ map (\<lambda>l. Invoked (ee_fn l) (ee_context l) args) (entry s e) \<and>
             length (entry s e) = listenerCount e s"
    by (auto simp: invoked_def[abs_def] listenerCount_entry)
next
  assume "listenerCount e s = 0"
  then have "entry s e = []" by (simp add: listenerCount_entry)
  then show "emit P (Suc k) e args s = Some (Inr False, s)" by (rule emit_none)
qed

theorem emit_invokes_listeners_in_order_witness:
  "invar (snd (once (JStr ''x'') (JFun 2) (JObj 7) (snd (on (JStr ''x'') (JFun 1) Undefined new_emitter)))) \<and>
   listenerCount (JStr ''x'')
     (snd (once (JStr ''x'') (JFun 2) (JObj 7) (snd (on (JStr ''x'') (JFun 1) Undefined new_emitter)))) = 2 \<and>
   (\<exists>s'. emit (\<lambda>m. []) 1 (JStr ''x'') [JNum 1]
           (snd (once (JStr ''x'') (JFun 2) (JObj 7) (snd (on (JStr ''x'') (JFun 1) Undefined new_emitter))))
           = Some (Inr True, s') \<and>
         trace s' = [Invoked (JFun 1) JEmitter [JNum 1], Invoked (JFun 2) (JObj 7) [JNum 1]]) \<and>
   emit (\<lambda>m. []) 1 (JStr ''y'') [JNum 1]
           (snd (once (JStr ''x'') (JFun 2) (JObj 7) (snd (on (JStr ''x'') (JFun 1) Undefined new_emitter))))
     = Some (Inr False,
        snd (once (JStr ''x'') (JFun 2) (JObj 7) (snd (on (JStr ''x'') (JFun 1) Undefined new_emitter))))"
proof -
  let ?s = "snd (once (JStr ''x'') (JFun 2) (JObj 7) (snd (on (JStr ''x'') (JFun 1) Undefined new_emitter)))"
  have inv: "invar ?s" by (simp add: built)
  have q: "\<forall>l \<in> set (entry ?s e). \<forall>m. ee_fn l = JFun m \<longrightarrow> (\<lambda>m. []) m = ([]::action list)" for e
    by simp
  from emit_invokes_listeners_in_order[OF inv q, of "JStr ''x''" 0 "[JNum 1]"]
       emit_invokes_listeners_in_order[OF inv q, of "JStr ''y''" 0 "[JNum 1]"] inv
  show ?thesis by (simp add: built)
qed

text \<open>
  C7: the invariant of the table: keys are unique and each key has a non-empty listener
  array of its own. It holds of a new registry and every operation keeps it (also a
  dispatch, whatever the listeners do and however it ends); under it an event is among
  \<open>eventNames\<close> exactly when it has a listener. So when a removal takes the last
  listeners of an event, the event is no longer among \<open>eventNames\<close> and its
  \<open>listenerCount\<close> is \<open>0\<close>.
\<close>

theorem key_present_iff_listeners:
  assumes "invar s"
  shows "invar (snd (on e f c s)) \<and> invar (snd (once e f c s)) \<and>
         invar (snd (addListener_method e f c s)) \<and>
         invar (removeListener e f c b s) \<and> invar (off e f c b s) \<and>
         invar (removeAllListeners e s) \<and>
         (\<forall>r s'. emit P k e args s = Some (r, s') \<longrightarrow> invar s') \<and>
         distinct (eventNames s) \<and>
         (e \<in> set (eventNames s) \<longleftrightarrow> 0 < listenerCount e s) \<and>
         (list_all (\<lambda>l. \<not> kept f c b l) (entry s e) \<longrightarrow>
            e \<notin> set (eventNames (off e f c b s)) \<and> listenerCount e (off e f c b s) = 0) \<and>
         (truthy e \<longrightarrow>
            e \<notin> set (eventNames (removeAllListeners e s)) \<and>
            listenerCount e (removeAllListeners e s) = 0)"
proof -
  have 1: "\<forall>r s'. emit P k e args s = Some (r, s') \<longrightarrow> invar s'"
    using emit_safe[OF assms] by blast
  have 2: "distinct (eventNames s)" using assms by (simp add: invar_def eventNames_def)
  have 3: "entry (off e f c b s) e = []" if "list_all (\<lambda>l. \<not> kept f c b l) (entry s e)"
    using that assms by (auto simp: off_def entry_removeListener list_all_iff filter_empty_conv)
  have 4: "e \<notin> set (eventNames (off e f c b s))" if "list_all (\<lambda>l. \<not> kept f c b l) (entry s e)"
    using 3[OF that] eventNames_removeListener[OF assms, of e f c b]
    by (simp add: off_def)
  show ?thesis
    using assms 1 2 3 4
    by (simp add: invar_on invar_once addListener_method_def invar_removeListener off_def
                  invar_removeAllListeners eventNames_iff_count listenerCount_entry
                  entry_removeAllListeners eventNames_removeAllListeners)
qed

theorem key_present_iff_listeners_witness:
  "invar (snd (on (JStr ''x'') (JFun 1) Undefined new_emitter)) \<and>
   eventNames (snd (on (JStr ''x'') (JFun 1) Undefined new_emitter)) = [JStr ''x''] \<and>
   list_all (\<lambda>l. \<not> kept (JFun 1) Undefined Undefined l)
      (entry (snd (on (JStr ''x'') (JFun 1) Undefined new_emitter)) (JStr ''x'')) \<and>
   JStr ''x'' \<notin> set (eventNames (off (JStr ''x'') (JFun 1) Undefined Undefined
                      (snd (on (JStr ''x'') (JFun 1) Undefined new_emitter)))) \<and>
   listenerCount (JStr ''x'') (off (JStr ''x'') (JFun 1) Undefined Undefined
                      (snd (on (JStr ''x'') (JFun 1) Undefined new_emitter))) = 0 \<and>
   invar (off (JStr ''x'') (JFun 1) Undefined Undefined
                      (snd (on (JStr ''x'') (JFun 1) Undefined new_emitter)))"
proof -
  let ?s = "snd (on (JStr ''x'') (JFun 1) Undefined new_emitter)"
  have inv: "invar ?s" by (simp add: built)
  have m: "list_all (\<lambda>l. \<not> kept (JFun 1) Undefined Undefined l) (entry ?s (JStr ''x''))"
    by (simp add: built kept_def)
  have n: "eventNames ?s = [JStr ''x'']"
    by (simp add: on_def eventNames_addListener) (simp add: eventNames_def new_emitter_def)
  from key_present_iff_listeners[OF inv, of "JStr ''x''" "JFun 1" Undefined Undefined] inv m n
  show ?thesis by simp
qed

section \<open>Removal\<close>

lemma eventNames_on:
  "is_function f \<Longrightarrow>
   eventNames (snd (on e f c s)) =
     (if e \<in> set (eventNames s) then eventNames s else eventNames s @ [e])"
  by (simp add: on_def eventNames_addListener)

lemma eventNames_new_emitter: "eventNames new_emitter = []"
  by (simp add: eventNames_def new_emitter_def)

lemma off_absent: "map_of (events s) e = None \<Longrightarrow> off e f c b s = s"
  by (simp add: off_def removeListener_def)

lemma entry_off:
  assumes "invar s" "truthy f"
  shows "entry (off e f c b s) e' =
           (if e' = e
            then filter (\<lambda>l. \<not> (ee_fn l = f \<and> (truthy c \<longrightarrow> ee_context l = c) \<and>
                                (truthy b \<longrightarrow> ee_once l))) (entry s e)
            else entry s e')"
  using assms by (auto simp: off_def entry_removeListener kept_def intro!: filter_cong)

lemma eventNames_off_noop:
  assumes "invar s" "truthy f" "list_all (kept f c b) (entry s e)"
  shows "eventNames (off e f c b s) = eventNames s"
proof -
  have same: "entry (off e f c b s) e = entry s e"
    using assms by (simp add: off_def entry_removeListener list_all_iff filter_id_conv)
  show ?thesis
  proof (cases "entry s e = []")
    case True
    then have "e \<notin> set (eventNames s)"
      using eventNames_iff_count[OF assms(1), of e] by (simp add: listenerCount_entry)
    then show ?thesis
      using eventNames_removeListener[OF assms(1), of e f c b]
      by (simp add: off_def filter_neq_id)
  next
    case False
    with same show ?thesis
      using eventNames_removeListener[OF assms(1), of e f c b] by (simp add: off_def)
  qed
qed

text \<open>
  C6, as stated, fails: a context argument that is falsy counts as no context. Here
  \<open>off('x', f, 0)\<close> removes a listener of \<open>f\<close> whose context is the object \<open>JObj 1\<close>,
  which is not \<open>0\<close>.
\<close>

theorem off_falsy_context_counterexample:
  "entry (snd (on (JStr ''x'') (JFun 1) (JObj 1) new_emitter)) (JStr ''x'')
     = [\<lparr>ee_fn = JFun 1, ee_context = JObj 1, ee_once = False\<rparr>] \<and>
   JObj 1 \<noteq> JNum 0 \<and>
   entry (off (JStr ''x'') (JFun 1) (JNum 0) Undefined
            (snd (on (JStr ''x'') (JFun 1) (JObj 1) new_emitter))) (JStr ''x'') = []"
  by (simp add: built entry_off)

text \<open>
  C6, amended: for a function \<open>f\<close>, \<open>off(e, f)\<close> with no context, or with a falsy one,
  removes every listener of \<open>e\<close> whose function is \<open>f\<close>, whatever its context;
  \<open>off(e, f, c)\<close> with a truthy context \<open>c\<close> removes only the listeners whose function is
  \<open>f\<close> and whose context is \<open>c\<close>; with a truthy \<open>once\<close> filter only one-shot listeners
  among these are removed. The other listeners stay, in their order, and the other events
  are untouched. When no listener matches, or the event is not in the table, every entry
  and \<open>eventNames\<close> are as before. \<open>off\<close> has no error result.
\<close>

theorem off_removes_matching:
  assumes "invar s" and "truthy f"
  shows "entry (off e f Undefined b s) e
           = filter (\<lambda>l. \<not> (ee_fn l = f \<and> (truthy b \<longrightarrow> ee_once l))) (entry s e) \<and>
         (truthy c \<longrightarrow>
            entry (off e f c b s) e
              = filter (\<lambda>l. \<not> (ee_fn l = f \<and> ee_context l = c \<and> (truthy b \<longrightarrow> ee_once l)))
                  (entry s e)) \<and>
         (\<not> truthy c \<longrightarrow> off e f c b s = off e f Undefined b s) \<and>
         (\<forall>e'. e' \<noteq> e \<longrightarrow> entry (off e f c b s) e' = entry s e') \<and>
         (list_all (kept f c b) (entry s e) \<longrightarrow>
            (\<forall>e'. entry (off e f c b s) e' = entry s e') \<and>
            eventNames (off e f c b s) = eventNames s) \<and>
         (map_of (events s) e = None \<longrightarrow> off e f c b s = s) \<and>
         removeListener e f c b s = off e f c b s"
proof -
  have 1: "off e f c b s = off e f Undefined b s" if "\<not> truthy c"
  proof -
    have k: "kept f c b = kept f Undefined b" using that by (simp add: kept_def fun_eq_iff)
    show ?thesis unfolding off_def removeListener_def k by (rule refl)
  qed
  have 2: "entry (off e f c b s) e' = entry s e'" if "list_all (kept f c b) (entry s e)" for e'
    using that assms by (simp add: off_def entry_removeListener list_all_iff filter_id_conv)
  show ?thesis
    using assms 1 2 eventNames_off_noop[OF assms, of c b e]
    by (simp add: entry_off off_absent) (simp add: off_def)
qed

theorem off_removes_matching_witness:
  "invar (snd (on (JStr ''x'') (JFun 1) (JObj 2)
           (snd (once (JStr ''x'') (JFun 1) (JObj 1)
             (snd (on (JStr ''x'') (JFun 1) (JObj 1) new_emitter)))))) \<and>
   truthy (JFun 1) \<and> truthy (JObj 1) \<and>
   entry (off (JStr ''x'') (JFun 1) (JObj 1) Undefined
           (snd (on (JStr ''x'') (JFun 1) (JObj 2)
             (snd (once (JStr ''x'') (JFun 1) (JObj 1)
               (snd (on (JStr ''x'') (JFun 1) (JObj 1) new_emitter))))))) (JStr ''x'')
     = [\<lparr>ee_fn = JFun 1, ee_context = JObj 2, ee_once = False\<rparr>] \<and>
   entry (off (JStr ''x'') (JFun 1) Undefined (JBool True)
           (snd (on (JStr ''x'') (JFun 1) (JObj 2)
             (snd (once (JStr ''x'') (JFun 1) (JObj 1)
               (snd (on (JStr ''x'') (JFun 1) (JObj 1) new_emitter))))))) (JStr ''x'')
     = [\<lparr>ee_fn = JFun 1, ee_context = JObj 1, ee_once = False\<rparr>,
        \<lparr>ee_fn = JFun 1, ee_context = JObj 2, ee_once = False\<rparr>] \<and>
   eventNames (off (JStr ''x'') (JFun 9) Undefined Undefined
           (snd (on (JStr ''x'') (JFun 1) (JObj 2)
             (snd (once (JStr ''x'') (JFun 1) (JObj 1)
               (snd (on (JStr ''x'') (JFun 1) (JObj 1) new_emitter)))))))
     = [JStr ''x'']"
proof -
  let ?s = "snd (on (JStr ''x'') (JFun 1) (JObj 2)
           (snd (once (JStr ''x'') (JFun 1) (JObj 1)
             (snd (on (JStr ''x'') (JFun 1) (JObj 1) new_emitter)))))"
  have inv: "invar ?s" by (simp add: built)
  have t: "truthy (JFun 1)" "truthy (JObj 1)" by simp_all
  have en: "entry ?s (JStr ''x'')
     = [\<lparr>ee_fn = JFun 1, ee_context = JObj 1, ee_once = False\<rparr>,
        \<lparr>ee_fn = JFun 1, ee_context = JObj 1, ee_once = True\<rparr>,
        \<lparr>ee_fn = JFun 1, ee_context = JObj 2, ee_once = False\<rparr>]"
    by (simp add: built)
  have names: "eventNames ?s = [JStr ''x'']"
    by (simp add: eventNames_on eventNames_new_emitter once_def eventNames_addListener)
  have k: "list_all (kept (JFun 9) Undefined Undefined) (entry ?s (JStr ''x''))"
    unfolding en by (simp add: kept_def)
  have 1: "entry (off (JStr ''x'') (JFun 1) (JObj 1) Undefined ?s) (JStr ''x'')
      = filter (\<lambda>l. \<not> (ee_fn l = JFun 1 \<and> ee_context l = JObj 1 \<and>
                         (truthy Undefined \<longrightarrow> ee_once l))) (entry ?s (JStr ''x''))"
    using off_removes_matching[OF inv t(1), where e = "JStr ''x''" and b = Undefined
                                              and c = "JObj 1"] t(2)
    by blast
  have 2: "entry (off (JStr ''x'') (JFun 1) Undefined (JBool True) ?s) (JStr ''x'')
      = filter (\<lambda>l. \<not> (ee_fn l = JFun 1 \<and> (truthy (JBool True) \<longrightarrow> ee_once l)))
          (entry ?s (JStr ''x''))"
    using off_removes_matching[OF inv t(1), where e = "JStr ''x''" and b = "JBool True"
                                              and c = Undefined]
    by blast
  have 3: "eventNames (off (JStr ''x'') (JFun 9) Undefined Undefined ?s) = eventNames ?s"
    using off_removes_matching[OF inv, where f = "JFun 9" and e = "JStr ''x''"
                                        and b = Undefined and c = Undefined] k
    by simp
  have r1: "entry (off (JStr ''x'') (JFun 1) (JObj 1) Undefined ?s) (JStr ''x'')
     = [\<lparr>ee_fn = JFun 1, ee_context = JObj 2, ee_once = False\<rparr>]"
    unfolding 1 en by simp
  have r2: "entry (off (JStr ''x'') (JFun 1) Undefined (JBool True) ?s) (JStr ''x'')
     = [\<lparr>ee_fn = JFun 1, ee_context = JObj 1, ee_once = False\<rparr>,
        \<lparr>ee_fn = JFun 1, ee_context = JObj 2, ee_once = False\<rparr>]"
    unfolding 2 en by simp
  show ?thesis using inv t r1 r2 3 names by (simp only: simp_thms)
qed

text \<open>
  C9: \<open>removeAllListeners(e)\<close> tests \<open>if (event)\<close>, so the event named by the empty
  string is taken for an omitted argument: the whole table is dropped, with the listener
  of the other event \<open>'a'\<close>. (\<open>off('')\<close> removes the listeners of \<open>''\<close> only.)
\<close>

theorem removeAllListeners_empty_string_event:
  "eventNames (snd (on (JStr ''a'') (JFun 2) Undefined
                 (snd (on (JStr '''') (JFun 1) Undefined new_emitter))))
     = [JStr '''', JStr ''a''] \<and>
   eventNames (removeAllListeners (JStr '''')
               (snd (on (JStr ''a'') (JFun 2) Undefined
                 (snd (on (JStr '''') (JFun 1) Undefined new_emitter))))) = [] \<and>
   listenerCount (JStr ''a'')
     (snd (on (JStr ''a'') (JFun 2) Undefined
       (snd (on (JStr '''') (JFun 1) Undefined new_emitter)))) = 1 \<and>
   listenerCount (JStr ''a'')
     (removeAllListeners (JStr '''')
       (snd (on (JStr ''a'') (JFun 2) Undefined
         (snd (on (JStr '''') (JFun 1) Undefined new_emitter))))) = 0 \<and>
   listenerCount (JStr ''a'')
     (off (JStr '''') Undefined Undefined Undefined
       (snd (on (JStr ''a'') (JFun 2) Undefined
         (snd (on (JStr '''') (JFun 1) Undefined new_emitter))))) = 1"
  by (simp add: built eventNames_on eventNames_new_emitter
                entry_removeAllListeners eventNames_removeAllListeners
                off_def entry_removeListener)

text \<open>What \<open>removeAllListeners\<close> does for the identifiers that are truthy, and with the
  argument omitted.\<close>

lemma removeAllListeners_truthy:
  "truthy e \<Longrightarrow>
   entry (removeAllListeners e s) e' = (if e' = e then [] else entry s e') \<and>
   eventNames (removeAllListeners e s) = filter (\<lambda>k. k \<noteq> e) (eventNames s)"
  by (simp add: entry_removeAllListeners eventNames_removeAllListeners)

lemma removeAllListeners_omitted:
  "eventNames (removeAllListeners Undefined s) = [] \<and>
   entry (removeAllListeners Undefined s) e' = []"
  by (simp add: entry_removeAllListeners eventNames_removeAllListeners)

section \<open>Errors raised by listeners\<close>

lemma after_once_sel_append: "after_once (xs @ ys) ls = after_once ys (after_once xs ls)"
  by (auto simp: after_once_def intro!: filter_cong)


lemma after_once_Cons_sel:
  "after_once (l # sel) ls = after_once sel (after_once [l] ls)"
  using after_once_sel_append[of "[l]" sel ls] by simp

lemma selected_facts:
  assumes "invar s"
  shows "invar (selected e l s)" "ext s (selected e l s)" "trace (selected e l s) = trace s"
  using assms
  by (simp_all add: selected_def invar_removeListener ext_removeListener ext_refl
                    removeListener_trace)

lemma entry_selected:
  assumes "invar s" "is_function (ee_fn l)"
  shows "entry (selected e l s) e' = (if e' = e then after_once [l] (entry s e) else entry s e')"
  using assms after_once_snoc[of "[]" l "entry s e"]
  by (simp add: selected_def entry_removeListener is_function_truthy after_once_Nil)

lemma emit_loop_step_selected:
  assumes "i < n" "a < length (heap s)" "i < length (heap s ! a)"
  shows "emit_loop call e args a i n s =
           (case call (heap s ! a ! i) args (selected e (heap s ! a ! i) s) of
              None \<Rightarrow> None
            | Some (Inl err, s2) \<Rightarrow> Some (Inl err, s2)
            | Some (Inr u, s2) \<Rightarrow> emit_loop call e args a (Suc i) n s2)"
  unfolding selected_def by (rule emit_loop_step[OF assms])

lemma emit_loop_quiet_seg:
  assumes quiet: "\<forall>l \<in> set (drop i ls). \<exists>m. ee_fn l = JFun m \<and> P m = []"
    and inv: "invar s" and a: "a < length (heap s)" and pre: "prefix ls (heap s ! a)"
    and n: "n = length ls" and i: "i \<le> n" and X: "entry s e = X"
  shows "\<exists>s'. emit_loop (call_listener em P) e args a i n s = Some (Inr True, s') \<and>
              invar s' \<and> ext s s' \<and>
              trace s' = trace s @ map (invoked args) (drop i ls) \<and>
              entry s' e = after_once (drop i ls) X \<and>
              (\<forall>e'. e' \<noteq> e \<longrightarrow> entry s' e' = entry s e')"
proof -
  define I where "I = (\<lambda>j (t::state). i \<le> j \<and>
              trace t = trace s @ map (invoked args) (take (j - i) (drop i ls)) \<and>
              entry t e = after_once (take (j - i) (drop i ls)) X \<and>
              (\<forall>e'. e' \<noteq> e \<longrightarrow> entry t e' = entry s e'))"
  have step: "\<exists>s2. call_listener em P (ls ! j) args
             (if ee_once (ls ! j)
              then removeListener e (ee_fn (ls ! j)) Undefined (JBool True) t else t)
             = Some (Inr (), s2) \<and> invar s2 \<and> ext t s2 \<and> I (Suc j) s2"
    if j: "j < n" and it: "invar t" and I: "I j t" for j t
  proof -
    let ?l = "ls ! j"
    from I have ij: "i \<le> j" by (simp add: I_def)
    have nth: "drop i ls ! (j - i) = ?l" using ij j n by simp
    have tk: "take (Suc j - i) (drop i ls) = take (j - i) (drop i ls) @ [?l]"
      using ij j n nth by (simp add: Suc_diff_le take_Suc_conv_app_nth)
    have mem: "?l \<in> set (drop i ls)"
      using ij j n nth by (metis diff_less_mono length_drop nth_mem)
    with quiet obtain m where m: "ee_fn ?l = JFun m" "P m = []" by blast
    let ?t1 = "selected e ?l t"
    have t1: "invar ?t1" "ext t ?t1" "trace ?t1 = trace t"
      using selected_facts[OF it] by simp_all
    have e1: "entry ?t1 e' = (if e' = e then after_once (take (Suc j - i) (drop i ls)) X
                              else entry s e')" for e'
      using I m(1) it
      by (simp add: I_def tk after_once_sel_append entry_selected)
    let ?s2 = "?t1\<lparr>trace := trace ?t1 @ [invoked args ?l]\<rparr>"
    have "call_listener em P ?l args ?t1 = Some (Inr (), ?s2)"
      using m by (rule call_listener_quiet)
    moreover have "invar ?s2" "ext t ?s2" using t1 by simp_all
    moreover have "I (Suc j) ?s2"
      using I ij t1(3) e1 unfolding I_def by (simp add: tk)
    ultimately show ?thesis unfolding selected_def by blast
  qed
  have I0: "I i s" by (simp add: I_def after_once_Nil X)
  from emit_loop_total[of n I "call_listener em P" ls args e i s a, OF step I0 inv a pre n i]
  show ?thesis by (auto simp: I_def n)
qed

text \<open>
  A listener that raises ends the dispatch: when the first \<open>i\<close> listeners have returned
  and the next one raises, \<open>emit\<close> returns that error and the state in which it was
  raised.
\<close>

lemma emit_propagates_listener_error:
  assumes inv: "invar s" and a: "map_of (events s) e = Some a" and i: "i < length (deref s a)"
    and run: "emit_loop (call_listener (emit P k) P) e args a 0 i s = Some (Inr True, s1)"
    and err: "call_listener (emit P k) P (deref s1 a ! i) args
                (selected e (deref s1 a ! i) s1) = Some (Inl err, s2)"
  shows "emit P (Suc k) e args s = Some (Inl err, s2) \<and> invar s2"
proof -
  let ?call = "call_listener (emit P k) P"
  have al: "a < length (heap s)" using inv a by (simp add: invar_lookup)
  then have d: "deref s a = heap s ! a" by (simp add: deref_def)
  have safe: "invar t' \<and> ext t t' \<and> (\<forall>err. r = Inl err \<longrightarrow> listener_error err)"
    if "invar t" "is_function (ee_fn l)" "?call l args t = Some (r, t')" for l t r t'
    using call_listener_safe[of "emit P k" t l P args r t'] that emit_safe by blast
  have i': "i \<le> length (heap s ! a)" using i d by simp
  from emit_loop_safe[of ?call args s a i e 0 "Inr True" s1, OF safe inv al i' run]
  have s1: "invar s1" "ext s s1" by simp_all
  from ext_heap[OF s1(2) al] have a1: "a < length (heap s1)"
    and p1: "prefix (heap s ! a) (heap s1 ! a)" by simp_all
  have i1: "i < length (heap s1 ! a)"
    using i d p1 by (metis less_le_trans prefix_length_le)
  have d1: "deref s1 a = heap s1 ! a" using a1 by (simp add: deref_def)
  have "emit P (Suc k) e args s = emit_loop ?call e args a 0 (length (deref s a)) s"
    using a i by auto
  also have "\<dots> = emit_loop ?call e args a i (length (deref s a)) s1"
    using emit_loop_split[OF _ _ run, of "length (deref s a)"] i by simp
  also have "\<dots> = Some (Inl err, s2)"
    using emit_loop_step_selected[OF i a1 i1, of ?call e args] err by (simp add: d1)
  finally have res: "emit P (Suc k) e args s = Some (Inl err, s2)" .
  have "is_function (ee_fn (heap s1 ! a ! i))" using invar_fn[OF s1(1) a1 i1] .
  from safe[OF _ this, of "selected e (heap s1 ! a ! i) s1" "Inl err" s2] err
  have "invar s2" by (simp add: d1 selected_facts[OF s1(1)])
  with res show ?thesis by simp
qed

lemma emit_quiet_then_throw:
  assumes inv: "invar s" and full: "entry s e = pre @ T # post"
    and quiet: "\<forall>l \<in> set pre. \<forall>m. ee_fn l = JFun m \<longrightarrow> P m = []"
    and T: "ee_fn T = JFun t" "P t = AThrow v # rest"
  shows "\<exists>s'. emit P (Suc k) e args s = Some (Inl (Thrown v), s') \<and> invar s' \<and>
              trace s' = trace s @ map (invoked args) (pre @ [T]) \<and>
              entry s' e = after_once (pre @ [T]) (pre @ T # post) \<and>
              (\<forall>e'. e' \<noteq> e \<longrightarrow> entry s' e' = entry s e')"
proof -
  let ?call = "call_listener (emit P k) P"
  have ne: "entry s e \<noteq> []" using full by simp
  from invar_entry[OF inv ne] obtain a where
    a: "map_of (events s) e = Some a" "a < length (heap s)" "heap s ! a = entry s e"
       "deref s a = entry s e" by blast
  have q: "\<forall>l \<in> set (drop 0 pre). \<exists>m. ee_fn l = JFun m \<and> P m = []"
  proof
    fix l assume "l \<in> set (drop 0 pre)"
    then have l: "l \<in> set pre" by simp
    then have "l \<in> set (entry s e)" using full by simp
    from invar_entry_fn[OF inv this] quiet l show "\<exists>m. ee_fn l = JFun m \<and> P m = []" by blast
  qed
  have pre: "prefix pre (heap s ! a)" using a(3) full by simp
  from emit_loop_quiet_seg[OF q inv a(2) pre refl _ full, of "emit P k" args]
  obtain s1 where s1:
    "emit_loop ?call e args a 0 (length pre) s = Some (Inr True, s1)"
    "invar s1" "ext s s1" "trace s1 = trace s @ map (invoked args) pre"
    "entry s1 e = after_once pre (pre @ T # post)"
    "\<forall>e'. e' \<noteq> e \<longrightarrow> entry s1 e' = entry s e'" by auto
  from ext_heap[OF s1(3) a(2)] have a1: "a < length (heap s1)"
    and p1: "prefix (heap s ! a) (heap s1 ! a)" by simp_all
  have Tn: "deref s1 a ! length pre = T"
    using p1 a1 a(3) full by (auto simp: deref_def prefix_def nth_append)
  let ?t1 = "selected e T s1"
  let ?s2 = "?t1\<lparr>trace := trace ?t1 @ [invoked args T]\<rparr>"
  have c: "?call (deref s1 a ! length pre) args (selected e (deref s1 a ! length pre) s1)
             = Some (Inl (Thrown v), ?s2)"
    unfolding Tn using T by (simp add: call_listener_def invoked_def)
  have i: "length pre < length (deref s a)" using a(4) full by simp
  from emit_propagates_listener_error[OF inv a(1) i s1(1) c]
  have res: "emit P (Suc k) e args s = Some (Inl (Thrown v), ?s2)" "invar ?s2" by simp_all
  have fT: "is_function (ee_fn T)" using T(1) by simp
  have "trace ?s2 = trace s @ map (invoked args) (pre @ [T])"
    using s1(4) selected_facts(3)[OF s1(2)] by simp
  moreover have "entry ?s2 e = after_once (pre @ [T]) (pre @ T # post)"
    using s1(5) by (simp add: entry_selected[OF s1(2) fT] after_once_sel_append)
  moreover have "\<forall>e'. e' \<noteq> e \<longrightarrow> entry ?s2 e' = entry s e'"
    using s1(6) by (simp add: entry_selected[OF s1(2) fT])
  ultimately show ?thesis using res by blast
qed

text \<open>
  C8: an error raised by a listener comes out of \<open>emit\<close> as it is, together with the
  state in which it was raised: nothing is rolled back and no later listener runs. In
  general, when the first \<open>i\<close> listeners of the sequence have returned and the next one
  raises \<open>err\<close> in a state \<open>s2\<close>, the call returns \<open>err\<close> and \<open>s2\<close>, and \<open>s2\<close> satisfies
  the table invariant. In particular, when the listeners \<open>pre\<close> before a listener \<open>T\<close>
  that throws \<open>v\<close> do not call the registry, the call returns \<open>v\<close>, it has invoked \<open>pre\<close>
  and \<open>T\<close> and none of the later listeners \<open>post\<close>, and the table entry is the one it
  started with less the one-shot removals made for \<open>pre\<close> and \<open>T\<close>.
\<close>

theorem listener_error_aborts_dispatch:
  assumes "invar s"
  shows "(map_of (events s) e = Some a \<and> i < length (deref s a) \<and>
          emit_loop (call_listener (emit P k) P) e args a 0 i s = Some (Inr True, s1) \<and>
          call_listener (emit P k) P (deref s1 a ! i) args (selected e (deref s1 a ! i) s1)
            = Some (Inl err, s2)
          \<longrightarrow> emit P (Suc k) e args s = Some (Inl err, s2) \<and> invar s2) \<and>
         (entry s e = pre @ T # post \<and>
          (\<forall>l \<in> set pre. \<forall>m. ee_fn l = JFun m \<longrightarrow> P m = []) \<and>
          ee_fn T = JFun t \<and> P t = AThrow v # rest
          \<longrightarrow> (\<exists>s'. emit P (Suc k) e args s = Some (Inl (Thrown v), s') \<and> invar s' \<and>
                 trace s' = trace s
                    @ map (\<lambda>l. Invoked (ee_fn l) (ee_context l) args) (pre @ [T]) \<and>
                 entry s' e = after_once (pre @ [T]) (pre @ T # post) \<and>
                 (\<forall>e'. e' \<noteq> e \<longrightarrow> entry s' e' = entry s e')))"
proof (intro conjI impI)
  assume "map_of (events s) e = Some a \<and> i < length (deref s a) \<and>
          emit_loop (call_listener (emit P k) P) e args a 0 i s = Some (Inr True, s1) \<and>
          call_listener (emit P k) P (deref s1 a ! i) args (selected e (deref s1 a ! i) s1)
            = Some (Inl err, s2)"
  then show "emit P (Suc k) e args s = Some (Inl err, s2)" "invar s2"
    using emit_propagates_listener_error[OF assms, of e a i P k args s1 err s2] by simp_all
next
  assume "entry s e = pre @ T # post \<and>
          (\<forall>l \<in> set pre. \<forall>m. ee_fn l = JFun m \<longrightarrow> P m = []) \<and>
          ee_fn T = JFun t \<and> P t = AThrow v # rest"
  then show "\<exists>s'. emit P (Suc k) e args s = Some (Inl (Thrown v), s') \<and> invar s' \<and>
                 trace s' = trace s
                    @ map (\<lambda>l. Invoked (ee_fn l) (ee_context l) args) (pre @ [T]) \<and>
                 entry s' e = after_once (pre @ [T]) (pre @ T # post) \<and>
                 (\<forall>e'. e' \<noteq> e \<longrightarrow> entry s' e' = entry s e')"
    using emit_quiet_then_throw[OF assms, of e pre T post P t v rest k args]
    by (simp add: invoked_def[abs_def])
qed

lemmas run_defs = on_def once_def off_def addListener_def new_emitter_def mkEE_def deref_def
  removeListener_def removeAllListeners_def kept_def clearEvent_def listenerCount_def
  call_listener_def selected_def emit_loop.simps Let_def

theorem listener_error_aborts_dispatch_witness:
  "invar (snd (once (JStr ''x'') (JFun 3) Undefined
           (snd (on (JStr ''x'') (JFun 2) Undefined
             (snd (once (JStr ''x'') (JFun 1) Undefined new_emitter)))))) \<and>
   emit (\<lambda>m. if m = 2 then [AThrow (JStr ''boom'')] else []) 1 (JStr ''x'') []
        (snd (once (JStr ''x'') (JFun 3) Undefined
           (snd (on (JStr ''x'') (JFun 2) Undefined
             (snd (once (JStr ''x'') (JFun 1) Undefined new_emitter))))))
     = Some (Inl (Thrown (JStr ''boom'')),
         \<lparr>heap = [[\<lparr>ee_fn = JFun 1, ee_context = JEmitter, ee_once = True\<rparr>,
                   \<lparr>ee_fn = JFun 2, ee_context = JEmitter, ee_once = False\<rparr>,
                   \<lparr>ee_fn = JFun 3, ee_context = JEmitter, ee_once = True\<rparr>],
                  [\<lparr>ee_fn = JFun 2, ee_context = JEmitter, ee_once = False\<rparr>,
                   \<lparr>ee_fn = JFun 3, ee_context = JEmitter, ee_once = True\<rparr>]],
          events = [(JStr ''x'', 1)],
          trace = [Invoked (JFun 1) JEmitter [], Invoked (JFun 2) JEmitter []]\<rparr>) \<and>
   (\<exists>s'. emit (\<lambda>m. if m = 2 then [AThrow (JStr ''boom'')] else []) 1 (JStr ''x'') []
        (snd (once (JStr ''x'') (JFun 3) Undefined
           (snd (on (JStr ''x'') (JFun 2) Undefined
             (snd (once (JStr ''x'') (JFun 1) Undefined new_emitter))))))
          = Some (Inl (Thrown (JStr ''boom'')), s') \<and>
        trace s' = [Invoked (JFun 1) JEmitter [], Invoked (JFun 2) JEmitter []] \<and>
        entry s' (JStr ''x'')
          = [\<lparr>ee_fn = JFun 2, ee_context = JEmitter, ee_once = False\<rparr>,
             \<lparr>ee_fn = JFun 3, ee_context = JEmitter, ee_once = True\<rparr>])"
proof -
  let ?s = "snd (once (JStr ''x'') (JFun 3) Undefined
           (snd (on (JStr ''x'') (JFun 2) Undefined
             (snd (once (JStr ''x'') (JFun 1) Undefined new_emitter)))))"
  let ?P = "\<lambda>m::nat. if m = 2 then [AThrow (JStr ''boom'')] else []"
  let ?l1 = "\<lparr>ee_fn = JFun 1, ee_context = JEmitter, ee_once = True\<rparr>"
  let ?l2 = "\<lparr>ee_fn = JFun 2, ee_context = JEmitter, ee_once = False\<rparr>"
  let ?l3 = "\<lparr>ee_fn = JFun 3, ee_context = JEmitter, ee_once = True\<rparr>"
  let ?s1 = "\<lparr>heap = [[?l1, ?l2, ?l3], [?l2, ?l3]], events = [(JStr ''x'', 1)],
              trace = [Invoked (JFun 1) JEmitter []]\<rparr>"
  let ?s2 = "\<lparr>heap = [[?l1, ?l2, ?l3], [?l2, ?l3]], events = [(JStr ''x'', 1)],
              trace = [Invoked (JFun 1) JEmitter [], Invoked (JFun 2) JEmitter []]\<rparr>"
  have inv: "invar ?s" by (simp add: built)
  have h1: "map_of (events ?s) (JStr ''x'') = Some 0 \<and> 1 < length (deref ?s 0) \<and>
          emit_loop (call_listener (emit ?P 0) ?P) (JStr ''x'') [] 0 0 1 ?s = Some (Inr True, ?s1) \<and>
          call_listener (emit ?P 0) ?P (deref ?s1 0 ! 1) [] (selected (JStr ''x'') (deref ?s1 0 ! 1) ?s1)
            = Some (Inl (Thrown (JStr ''boom'')), ?s2)"
    by (simp add: run_defs)
  have h2: "entry ?s (JStr ''x'') = [?l1] @ ?l2 # [?l3] \<and>
          (\<forall>l \<in> set [?l1]. \<forall>m. ee_fn l = JFun m \<longrightarrow> ?P m = []) \<and>
          ee_fn ?l2 = JFun 2 \<and> ?P 2 = AThrow (JStr ''boom'') # []"
    by (simp add: built)
  note t = listener_error_aborts_dispatch[OF inv, where P = ?P and k = 0 and e = "JStr ''x''"
             and args = "[]" and a = 0 and i = 1 and ?s1.0 = ?s1 and ?s2.0 = ?s2
             and err = "Thrown (JStr ''boom'')" and pre = "[?l1]" and T = ?l2
             and post = "[?l3]" and t = 2 and v = "JStr ''boom''" and rest = "[]"]
  from t h1 have g: "emit ?P (Suc 0) (JStr ''x'') [] ?s = Some (Inl (Thrown (JStr ''boom'')), ?s2)"
    by blast
  from t h2 obtain s' where
    q: "emit ?P (Suc 0) (JStr ''x'') [] ?s = Some (Inl (Thrown (JStr ''boom'')), s')"
       "trace s' = trace ?s @ map (\<lambda>l. Invoked (ee_fn l) (ee_context l) []) ([?l1] @ [?l2])"
       "entry s' (JStr ''x'') = after_once ([?l1] @ [?l2]) ([?l1] @ ?l2 # [?l3])"
    by blast
  have tr: "trace s' = [Invoked (JFun 1) JEmitter [], Invoked (JFun 2) JEmitter []]"
    using q(2) by (simp add: built)
  have en: "entry s' (JStr ''x'') = [?l2, ?l3]"
    using q(3) by (simp add: after_once_def)
  show ?thesis using inv g q(1) tr en by (simp only: One_nat_def[symmetric]) blast
qed

section \<open>One-shot listeners\<close>

lemma listenerCount_trace [simp]: "listenerCount e (s\<lparr>trace := x\<rparr>) = listenerCount e s"
  by (simp add: listenerCount_entry)







section \<open>Listeners registered during a dispatch\<close>







section \<open>Isolation of a dispatch in flight\<close>

lemma exec_trace:
  assumes em: "\<And>e args s r s'. em e args s = Some (r, s') \<Longrightarrow> prefix (trace s) (trace s')"
  shows "exec em body s = Some (r, s') \<Longrightarrow> prefix (trace s) (trace s')"
proof (induction body arbitrary: s)
  case Nil
  then show ?case by simp
next
  case (Cons x as)
  note IH = Cons.IH and run = Cons.prems
  have reg: ?case
    if x: "exec em (x # as) s =
             (case addListener e f c b s of
                (Inl err, t) \<Rightarrow> Some (Inl err, t)
              | (Inr u, t) \<Rightarrow> exec em as t)" for e f c b
  proof (cases "addListener e f c b s")
    case (Pair u t)
    then have t: "trace t = trace s" using addListener_trace[of e f c b s] by simp
    show ?thesis
    proof (cases u)
      case (Inl err)
      with run x Pair t show ?thesis by simp
    next
      case (Inr v)
      with run x Pair have "exec em as t = Some (r, s')" by simp
      from IH[OF this] t show ?thesis by simp
    qed
  qed
  show ?case
  proof (cases x)
    case (AOn e f c)
    then show ?thesis by (intro reg[of e f c False]) (simp add: on_def)
  next
    case (AOnce e f c)
    then show ?thesis by (intro reg[of e f c True]) (simp add: once_def)
  next
    case (AOff e f c b)
    with run IH[of "off e f c b s"] show ?thesis
      by (simp add: off_def removeListener_trace)
  next
    case (ARemoveAll e)
    with run IH[of "removeAllListeners e s"] show ?thesis
      by (simp add: removeAllListeners_trace)
  next
    case (AEmit e args)
    with run obtain r1 t where et: "em e args s = Some (r1, t)"
      by (cases "em e args s") auto
    from em[OF et] have pt: "prefix (trace s) (trace t)" .
    show ?thesis
    proof (cases r1)
      case (Inl err)
      with run et AEmit pt show ?thesis by simp
    next
      case (Inr b)
      with run et AEmit have "exec em as t = Some (r, s')" by simp
      from IH[OF this] pt show ?thesis by (rule prefix_order.order_trans[rotated])
    qed
  next
    case (ACount e)
    with run IH[of "s\<lparr>trace := trace s @ [Counted e (listenerCount e s)]\<rparr>"]
    show ?thesis by (auto dest: append_prefixD)
  next
    case (AThrow v)
    with run show ?thesis by auto
  qed
qed

lemma call_listener_trace:
  assumes em: "\<And>e args s r s'. em e args s = Some (r, s') \<Longrightarrow> prefix (trace s) (trace s')"
    and "is_function (ee_fn l)" "call_listener em P l args s = Some (r, s')"
  shows "prefix (trace s @ [invoked args l]) (trace s')"
proof -
  from assms(2) obtain n where n: "ee_fn l = JFun n" by (cases "ee_fn l") simp_all
  let ?t = "s\<lparr>trace := trace s @ [Invoked (ee_fn l) (ee_context l) args]\<rparr>"
  have "exec em (P n) ?t = Some (r, s')"
    using assms(3) n by (simp add: call_listener_def)
  from exec_trace[of em "P n" ?t r s', OF em this] show ?thesis
    by (simp add: invoked_def)
qed

lemma emit_loop_invokes:
  assumes call: "\<And>l s r s'. invar s \<Longrightarrow> is_function (ee_fn l) \<Longrightarrow>
                   call l args s = Some (r, s') \<Longrightarrow>
                   invar s' \<and> ext s s' \<and> prefix (trace s @ [invoked args l]) (trace s')"
  shows "invar s \<Longrightarrow> a < length (heap s) \<Longrightarrow> prefix ls (heap s ! a) \<Longrightarrow> n = length ls \<Longrightarrow>
         i \<le> n \<Longrightarrow> emit_loop call e args a i n s = Some (r, s') \<Longrightarrow>
         prefix (trace s) (trace s') \<and>
         (\<forall>b. r = Inr b \<longrightarrow>
            b \<and> subseq (map (invoked args) (drop i ls)) (drop (length (trace s)) (trace s')))"
proof (induction "n - i" arbitrary: i s)
  case 0
  then show ?case by (auto simp: emit_loop_done)
next
  case (Suc d)
  then have i: "i < n" by simp
  have il: "i < length (heap s ! a)"
    using i Suc.prems(3,4) by (metis less_le_trans prefix_length_le)
  have l: "heap s ! a ! i = ls ! i"
    using i Suc.prems(3,4) by (metis prefix_def nth_append)
  let ?l = "ls ! i"
  let ?s1 = "selected e ?l s"
  have s1: "invar ?s1" "ext s ?s1" "trace ?s1 = trace s"
    using selected_facts[OF Suc.prems(1)] by simp_all
  have fn: "is_function (ee_fn ?l)" using invar_fn[OF Suc.prems(1,2) il] l by simp
  have unf: "emit_loop call e args a i n s =
        (case call ?l args ?s1 of
           None \<Rightarrow> None
         | Some (Inl err, s2) \<Rightarrow> Some (Inl err, s2)
         | Some (Inr u, s2) \<Rightarrow> emit_loop call e args a (Suc i) n s2)"
    using emit_loop_step_selected[OF i Suc.prems(2) il, of call e args] by (simp add: l)
  with Suc.prems(6) obtain r1 s2 where c: "call ?l args ?s1 = Some (r1, s2)"
    by (cases "call ?l args ?s1") auto
  from call[OF s1(1) fn c]
  have s2: "invar s2" "ext ?s1 s2" "prefix (trace s @ [invoked args ?l]) (trace s2)"
    by (simp_all add: s1(3))
  have ss2: "ext s s2" using s1(2) s2(2) by (rule ext_trans)
  have p2: "prefix (trace s) (trace s2)" using s2(3) by (rule append_prefixD)
  show ?case
  proof (cases r1)
    case (Inl err)
    with Suc.prems(6) unf c p2 show ?thesis by auto
  next
    case (Inr u)
    with Suc.prems(6) unf c have rest: "emit_loop call e args a (Suc i) n s2 = Some (r, s')"
      by simp
    have a2: "a < length (heap s2)" and pp: "prefix (heap s ! a) (heap s2 ! a)"
      using ext_heap[OF ss2 Suc.prems(2)] by simp_all
    have pl: "prefix ls (heap s2 ! a)" using Suc.prems(3) pp by (rule prefix_order.order_trans)
    have d: "d = n - Suc i" using Suc.hyps(2) by simp
    from Suc.hyps(1)[OF d s2(1) a2 pl Suc.prems(4) _ rest] i
    have IH: "prefix (trace s2) (trace s')"
      "\<forall>b. r = Inr b \<longrightarrow>
         b \<and> subseq (map (invoked args) (drop (Suc i) ls)) (drop (length (trace s2)) (trace s'))"
      by auto
    have tot: "prefix (trace s) (trace s')" using p2 IH(1) by (rule prefix_order.order_trans)
    have sub: "subseq (map (invoked args) (drop i ls)) (drop (length (trace s)) (trace s'))"
      if "subseq (map (invoked args) (drop (Suc i) ls)) (drop (length (trace s2)) (trace s'))"
    proof -
      from s2(3) obtain m where m: "trace s2 = trace s @ invoked args ?l # m"
        by (auto simp: prefix_def)
      from IH(1) obtain m' where m': "trace s' = trace s2 @ m'" by (auto simp: prefix_def)
      have "drop (length (trace s)) (trace s') = invoked args ?l # m @ m'"
        by (simp add: m m')
      moreover have "drop (length (trace s2)) (trace s') = m'" by (simp add: m')
      moreover have "drop i ls = ?l # drop (Suc i) ls"
        using i Suc.prems(4) by (simp add: Cons_nth_drop_Suc)
      ultimately show ?thesis
        using that by (simp add: subseq_Cons2_iff list_emb_append2)
    qed
    from tot IH(2) sub show ?thesis by blast
  qed
qed

lemma call_listener_trace_prefix:
  assumes em: "\<And>e args s r s'. em e args s = Some (r, s') \<Longrightarrow> prefix (trace s) (trace s')"
    and "call_listener em P l args s = Some (r, s')"
  shows "prefix (trace s) (trace s')"
proof (cases "is_function (ee_fn l)")
  case True
  from call_listener_trace[of em l P args s r s', OF em True assms(2)]
  show ?thesis by (rule append_prefixD)
next
  case False
  with assms(2) show ?thesis by (cases "ee_fn l") (simp_all add: call_listener_def)
qed

lemma emit_loop_trace:
  assumes call: "\<And>l s r s'. call l args s = Some (r, s') \<Longrightarrow> prefix (trace s) (trace s')"
  shows "emit_loop call e args a i n s = Some (r, s') \<Longrightarrow> prefix (trace s) (trace s')"
proof (induction "n - i" arbitrary: i s)
  case 0
  then show ?case by (simp add: emit_loop_done)
next
  case (Suc d)
  then have i: "i < n" and d: "d = n - Suc i" by simp_all
  let ?s1 = "selected e (deref s a ! i) s"
  have t1: "trace ?s1 = trace s" by (simp add: selected_def removeListener_trace)
  show ?case
  proof (cases "i < length (deref s a) \<and> i < length (deref ?s1 a)")
    case False
    with Suc.prems i t1 show ?thesis
      by (subst (asm) emit_loop.simps)
         (auto simp: Let_def selected_def split: if_splits)
  next
    case True
    with Suc.prems i have run:
      "(case call (deref ?s1 a ! i) args ?s1 of
          None \<Rightarrow> None
        | Some (Inl err, s2) \<Rightarrow> Some (Inl err, s2)
        | Some (Inr u, s2) \<Rightarrow> emit_loop call e args a (Suc i) n s2) = Some (r, s')"
      by (subst (asm) emit_loop.simps) (simp add: Let_def selected_def)
    then obtain r1 s2 where c: "call (deref ?s1 a ! i) args ?s1 = Some (r1, s2)"
      by (cases "call (deref ?s1 a ! i) args ?s1") auto
    from call[OF c] t1 have p: "prefix (trace s) (trace s2)" by simp
    show ?thesis
    proof (cases r1)
      case (Inl err)
      with run c p show ?thesis by simp
    next
      case (Inr u)
      with run c have "emit_loop call e args a (Suc i) n s2 = Some (r, s')" by simp
      from Suc.hyps(1)[OF d this] p show ?thesis by (rule prefix_order.order_trans[rotated])
    qed
  qed
qed

lemma emit_trace:
  "emit P k e args s = Some (r, s') \<Longrightarrow> prefix (trace s) (trace s')"
proof (induction k arbitrary: e args s r s')
  case 0
  then show ?case by simp
next
  case (Suc k)
  have call: "prefix (trace t) (trace t')"
    if "call_listener (emit P k) P l args t = Some (r1, t')" for l t r1 t'
    using call_listener_trace_prefix[of "emit P k" P l args t r1 t'] Suc.IH that by blast
  show ?case
  proof (cases "map_of (events s) e")
    case None
    with Suc.prems show ?thesis by simp
  next
    case (Some a)
    show ?thesis
    proof (cases "length (deref s a) = 0")
      case True
      with Suc.prems Some show ?thesis by simp
    next
      case False
      with Suc.prems Some have
        "emit_loop (call_listener (emit P k) P) e args a 0 (length (deref s a)) s = Some (r, s')"
        by simp
      moreover note emit_loop_trace[where call = "call_listener (emit P k) P" and args = args
          and e = e and a = a and i = 0 and n = "length (deref s a)" and s = s and r = r
          and s' = s']
      ultimately show ?thesis using call by blast
    qed
  qed
qed

lemma emit_invokes:
  assumes inv: "invar s" and ne: "entry s e \<noteq> []"
    and run: "emit P (Suc k) e args s = Some (Inr b, s')"
  shows "b \<and> subseq (map (invoked args) (entry s e)) (drop (length (trace s)) (trace s'))"
proof -
  let ?call = "call_listener (emit P k) P"
  from emit_unfold[OF inv ne, of P k args] obtain a where
    a: "a < length (heap s)" "heap s ! a = entry s e"
    "emit P (Suc k) e args s = emit_loop ?call e args a 0 (length (entry s e)) s" by blast
  have call: "invar t' \<and> ext t t' \<and> prefix (trace t @ [invoked args l]) (trace t')"
    if "invar t" "is_function (ee_fn l)" "?call l args t = Some (r1, t')" for l t r1 t'
  proof -
    have "invar t' \<and> ext t t'"
      using call_listener_safe[of "emit P k" t l P args r1 t'] that emit_safe by blast
    moreover have "prefix (trace t @ [invoked args l]) (trace t')"
      by (rule call_listener_trace[of "emit P k" l P args t r1 t', OF emit_trace that(2,3)])
    ultimately show ?thesis by simp
  qed
  have pre: "prefix (entry s e) (heap s ! a)" using a(2) by simp
  from emit_loop_invokes[of ?call args s a "entry s e" "length (entry s e)" 0 e "Inr b" s',
        OF call inv a(1) pre refl] run a(3)
  show ?thesis by simp
qed

text \<open>
  C3: removal never touches the array a dispatch in flight iterates (it stores a new
  array, or deletes the key), so a listener removed by an earlier listener of the same
  call is still invoked. Whatever the listener bodies do (register, remove by \<open>off\<close> or
  \<open>removeAllListeners\<close>, emit again), a call that returns has invoked every listener of
  the sequence it started with, in order: their invocations are a subsequence of what the
  call added to the trace. When the bodies neither emit nor throw, the call does return,
  and it made exactly these invocations.
\<close>

theorem removed_listener_still_invoked:
  assumes "invar s" and "entry s e \<noteq> []"
  shows "(\<forall>b s'. emit P (Suc k) e args s = Some (Inr b, s') \<longrightarrow>
            b \<and> subseq (map (\<lambda>l. Invoked (ee_fn l) (ee_context l) args) (entry s e))
                   (drop (length (trace s)) (trace s'))) \<and>
         ((\<forall>l \<in> set (entry s e). \<forall>m. ee_fn l = JFun m \<longrightarrow> list_all plain_action (P m)) \<longrightarrow>
            (\<exists>s'. emit P (Suc k) e args s = Some (Inr True, s') \<and>
                  filter is_invocation (trace s')
                    = filter is_invocation (trace s)
                        @ map (\<lambda>l. Invoked (ee_fn l) (ee_context l) args) (entry s e)))"
proof (intro conjI allI impI)
  fix b s' assume "emit P (Suc k) e args s = Some (Inr b, s')"
  from emit_invokes[OF assms this]
  show "b" "subseq (map (\<lambda>l. Invoked (ee_fn l) (ee_context l) args) (entry s e))
                   (drop (length (trace s)) (trace s'))"
    by (simp_all add: invoked_def[abs_def])
next
  assume "\<forall>l \<in> set (entry s e). \<forall>m. ee_fn l = JFun m \<longrightarrow> list_all plain_action (P m)"
  from emit_plain[OF assms this, of k args]
  show "\<exists>s'. emit P (Suc k) e args s = Some (Inr True, s') \<and>
                  filter is_invocation (trace s')
                    = filter is_invocation (trace s)
                        @ map (\<lambda>l. Invoked (ee_fn l) (ee_context l) args) (entry s e)"
    by (auto simp: invoked_def[abs_def])
qed

theorem removed_listener_still_invoked_witness:
  "invar (snd (on (JStr ''x'') (JFun 2) Undefined (snd (on (JStr ''x'') (JFun 1) Undefined new_emitter)))) \<and>
   emit (\<lambda>m. if m = 1 then [AOff (JStr ''x'') (JFun 2) Undefined Undefined, ACount (JStr ''x'')]
              else []) 1 (JStr ''x'') []
     (snd (on (JStr ''x'') (JFun 2) Undefined (snd (on (JStr ''x'') (JFun 1) Undefined new_emitter))))
     = Some (Inr True,
         \<lparr>heap = [[\<lparr>ee_fn = JFun 1, ee_context = JEmitter, ee_once = False\<rparr>,
                   \<lparr>ee_fn = JFun 2, ee_context = JEmitter, ee_once = False\<rparr>],
                  [\<lparr>ee_fn = JFun 1, ee_context = JEmitter, ee_once = False\<rparr>]],
          events = [(JStr ''x'', 1)],
          trace = [Invoked (JFun 1) JEmitter [], Counted (JStr ''x'') 1,
                   Invoked (JFun 2) JEmitter []]\<rparr>) \<and>
   subseq [Invoked (JFun 1) JEmitter [], Invoked (JFun 2) JEmitter []]
          [Invoked (JFun 1) JEmitter [], Counted (JStr ''x'') 1, Invoked (JFun 2) JEmitter []] \<and>
   (\<exists>s'. emit (\<lambda>m. if m = 1 then [AOff (JStr ''x'') (JFun 2) Undefined Undefined, ACount (JStr ''x'')]
              else []) 1 (JStr ''x'') []
           (snd (on (JStr ''x'') (JFun 2) Undefined (snd (on (JStr ''x'') (JFun 1) Undefined new_emitter))))
           = Some (Inr True, s') \<and>
         filter is_invocation (trace s')
           = [Invoked (JFun 1) JEmitter [], Invoked (JFun 2) JEmitter []])"
proof -
  let ?s = "snd (on (JStr ''x'') (JFun 2) Undefined (snd (on (JStr ''x'') (JFun 1) Undefined new_emitter)))"
  let ?P = "\<lambda>m::nat. if m = 1 then [AOff (JStr ''x'') (JFun 2) Undefined Undefined, ACount (JStr ''x'')]
              else []"
  let ?l1 = "\<lparr>ee_fn = JFun 1, ee_context = JEmitter, ee_once = False\<rparr>"
  let ?l2 = "\<lparr>ee_fn = JFun 2, ee_context = JEmitter, ee_once = False\<rparr>"
  let ?s' = "\<lparr>heap = [[?l1, ?l2], [?l1]], events = [(JStr ''x'', 1)],
          trace = [Invoked (JFun 1) JEmitter [], Counted (JStr ''x'') 1,
                   Invoked (JFun 2) JEmitter []]\<rparr>"
  have inv: "invar ?s" by (simp add: built)
  have en: "entry ?s (JStr ''x'') = [?l1, ?l2]" by (simp add: built)
  have ne: "entry ?s (JStr ''x'') \<noteq> []" unfolding en by simp
  have tr: "trace ?s = []" by (simp add: built)
  have p: "\<forall>l \<in> set (entry ?s (JStr ''x'')). \<forall>m. ee_fn l = JFun m \<longrightarrow> list_all plain_action (?P m)"
    unfolding en by simp
  have run: "emit ?P (Suc 0) (JStr ''x'') [] ?s = Some (Inr True, ?s')"
    by (simp add: run_defs)
  note t = removed_listener_still_invoked[OF inv ne, of ?P 0 "[]"]
  from t run have "subseq (map (\<lambda>l. Invoked (ee_fn l) (ee_context l) []) (entry ?s (JStr ''x'')))
                   (drop (length (trace ?s)) (trace ?s'))"
    by blast
  then have sub: "subseq [Invoked (JFun 1) JEmitter [], Invoked (JFun 2) JEmitter []]
          [Invoked (JFun 1) JEmitter [], Counted (JStr ''x'') 1, Invoked (JFun 2) JEmitter []]"
    unfolding en tr by simp
  from t p obtain s' where s': "emit ?P (Suc 0) (JStr ''x'') [] ?s = Some (Inr True, s')"
    "filter is_invocation (trace s')
       = filter is_invocation (trace ?s)
           @ map (\<lambda>l. Invoked (ee_fn l) (ee_context l) []) (entry ?s (JStr ''x''))"
    by blast
  have f: "filter is_invocation (trace s')
           = [Invoked (JFun 1) JEmitter [], Invoked (JFun 2) JEmitter []]"
    unfolding s'(2) en tr by simp
  show ?thesis using inv run sub s'(1) f by (simp only: One_nat_def[symmetric]) blast
qed

end
